theory Spec2Isabelle
  imports Main "HOL-Library.Word" "HOL-Library.Multiset"
begin

unbundle bit_operations_syntax

section \<open>Webhook notification middleware of ofelia: data model\<close>

text \<open>
  The development follows the Go package \<open>middlewares\<close>: the webhook configuration and
  loader, the template helpers, the global dispatcher \<open>Webhook\<close> and the per-job
  dispatcher \<open>PerJobWebhook\<close>. Go's \<open>int\<close> and \<open>time.Duration\<close> are 64-bit
  two's complement integers and are modelled as \<open>64 word\<close> wherever the code computes
  with them; strings are byte lists. Calls into the Go standard library and into the
  \<open>core\<close> package (the job pipeline) are parameters of the functions that make them.
\<close>

type_synonym go_int = "64 word"
type_synonym Duration = "64 word"

text \<open>Values of Go's \<open>error\<close> interface; \<open>nil\<close> is \<open>None\<close> of \<open>error option\<close>.\<close>

datatype error =
    ExternalError string
  | Panic string
  | ReadFileError error
  | ParseJSONError error
  | MissingURL nat
  | MissingType string
  | InvalidType string error
  | InvalidWebhookType string
  | InvalidRetryBackoff string error
  | UnknownErrorWebhook string
  | UnknownInfoWebhook string
  | WrongTypeForErrorNames string string
  | WrongTypeForInfoNames string string
  | TemplateParseError error
  | TemplateExecutionError error
  | MarshalBodyError error
  | InvalidJSONResult error
  | UnsupportedBodyType
  | CreateRequestError error
  | RequestFailed error
  | Non2xxStatus int string

definition WebhookTypeError :: string where "WebhookTypeError = ''error''"
definition WebhookTypeInfo :: string where "WebhookTypeInfo = ''info''"
definition WebhookTypeAll :: string where "WebhookTypeAll = ''all''"

definition defaultRetryCount :: go_int where "defaultRetryCount = 0"
definition defaultRetryBackoff :: Duration where "defaultRetryBackoff = 1000000000"
definition defaultTimeout_Seconds :: go_int where "defaultTimeout_Seconds = 10"
definition time_Second :: Duration where "time_Second = 1000000000"
definition defaultWebhookConfigPath :: string where
  "defaultWebhookConfigPath = ''/etc/config/middlewares.json''"

text \<open>
  A value held by Go's \<open>interface{}\<close> after \<open>json.Unmarshal\<close>: \<open>nil\<close>, bool, float64,
  string, \<open>[]interface{}\<close> or \<open>map[string]interface{}\<close>. A float64 is given by its 64
  bits; the code never computes with numbers.
\<close>

datatype float64 = Float64 "64 word"

datatype json_value =
    JNil
  | JBool bool
  | JNumber float64
  | JString string
  | JSlice "json_value list"
  | JMap "(string \<times> json_value) list"

record RetryConfig =
  Count :: go_int
  Backoff :: string

record WebhookDefinition =
  Name :: string
  Type :: string
  Active :: bool
  Priority :: int
  URL :: string
  Method :: string
  Headers :: "(string \<times> string) list option"
  Body :: json_value
  OnlyOnError :: bool
  Timeout :: go_int
  Retry :: "RetryConfig option"

record Webhook =
  name :: string
  webhookType :: string
  active :: bool
  url :: string
  http_method :: string
  headers :: "(string \<times> string) list option"
  body :: json_value
  onlyOnError :: bool
  timeout :: Duration
  retryCount :: go_int
  retryBackoff :: Duration

record PerJobWebhook =
  errorWebhooks :: "WebhookDefinition list"
  infoWebhooks :: "WebhookDefinition list"

section \<open>Template helper: truncateString\<close>

text \<open>
  \<open>s[:maxLen]\<close> panics when \<open>maxLen\<close> is negative; \<open>len\<close> counts bytes.
\<close>

definition truncateString :: "int \<Rightarrow> string \<Rightarrow> error + string" where
  "truncateString maxLen s =
     (if int (length s) \<le> maxLen then Inr s
      else if maxLen \<le> 3 then
        (if maxLen < 0 then Inl (Panic ''slice bounds out of range'')
         else Inr (take (nat maxLen) s))
      else Inr (take (nat (maxLen - 3)) s @ ''...''))"

definition hasSuffix :: "string \<Rightarrow> string \<Rightarrow> bool" where
  "hasSuffix s suffix =
     (length suffix \<le> length s \<and> drop (length s - length suffix) s = suffix)"

section \<open>The dispatchers\<close>

text \<open>
  The job pipeline behind \<open>ctx\<close> belongs to package \<open>core\<close>. \<open>ctx_Next\<close> runs the rest
  of the pipeline and yields its error and the new context, \<open>ctx_Stop\<close> records the
  outcome, and \<open>Execution_Failed\<close> reads \<open>ctx.Execution.Failed\<close>.
\<close>

record 'c core_ops =
  ctx_Next :: "'c \<Rightarrow> error option \<times> 'c"
  ctx_Stop :: "error option \<Rightarrow> 'c \<Rightarrow> 'c"
  Execution_Failed :: "'c \<Rightarrow> bool"

datatype log_entry =
    Debug_skipped_inactive string
  | Debug_skipped_type_mismatch string string bool
  | Debug_skipped_onlyOnError string
  | Error_url_template string error
  | Error_body_template string error
  | Error_header_template string string error
  | Error_failed_after_attempts string go_int error
  | Debug_sent_successfully string string
  | Debug_retry_attempt string go_int go_int Duration
  | Error_create_webhook string error
  | Debug_config_not_found string
  | Error_failed_to_parse string error
  | Debug_no_webhooks string
  | Error_create_middleware string error
  | Notice_loaded string string bool int
  | Notice_inactive string

text \<open>A goroutine started with \<open>go\<close>: the call and its arguments.\<close>

datatype 'c task =
    Go_sendWebhook Webhook 'c
  | Go_perjob_sendWebhook PerJobWebhook 'c WebhookDefinition

record 'c run_result =
  returned :: "error option"
  ctx_after :: 'c
  logged :: "log_entry list"
  spawned :: "'c task list"

definition Run :: "'c core_ops \<Rightarrow> Webhook \<Rightarrow> 'c \<Rightarrow> 'c run_result" where
  "Run core w ctx0 =
     (let (err, ctx1) = ctx_Next core ctx0;
          ctx = ctx_Stop core err ctx1;
          failed = Execution_Failed core ctx
      in if \<not> active w then
           \<lparr>returned = err, ctx_after = ctx,
            logged = [Debug_skipped_inactive (name w)], spawned = []\<rparr>
         else
           let shouldSend =
                 (if webhookType w = WebhookTypeAll then True
                  else if failed \<and> webhookType w = WebhookTypeError then True
                  else if \<not> failed \<and> webhookType w = WebhookTypeInfo then True
                  else False)
           in if \<not> shouldSend then
                \<lparr>returned = err, ctx_after = ctx,
                 logged = [Debug_skipped_type_mismatch (name w) (webhookType w) failed],
                 spawned = []\<rparr>
              else if onlyOnError w \<and> \<not> failed then
                \<lparr>returned = err, ctx_after = ctx,
                 logged = [Debug_skipped_onlyOnError (name w)], spawned = []\<rparr>
              else
                \<lparr>returned = err, ctx_after = ctx, logged = [],
                 spawned = [Go_sendWebhook w ctx]\<rparr>)"

text \<open>The loop of \<open>PerJobWebhook.Run\<close> over the selected definitions.\<close>

fun fire_webhooks ::
  "PerJobWebhook \<Rightarrow> 'c \<Rightarrow> WebhookDefinition list \<Rightarrow> log_entry list \<times> 'c task list" where
  "fire_webhooks w ctx [] = ([], [])"
| "fire_webhooks w ctx (d # ds) =
     (let (lg, ts) = fire_webhooks w ctx ds
      in if \<not> Active d then (Debug_skipped_inactive (Name d) # lg, ts)
         else (lg, Go_perjob_sendWebhook w ctx d # ts))"

definition PerJob_Run :: "'c core_ops \<Rightarrow> PerJobWebhook \<Rightarrow> 'c \<Rightarrow> 'c run_result" where
  "PerJob_Run core w ctx0 =
     (let (err, ctx1) = ctx_Next core ctx0;
          ctx = ctx_Stop core err ctx1;
          webhooks = (if Execution_Failed core ctx then errorWebhooks w else infoWebhooks w);
          (lg, ts) = fire_webhooks w ctx webhooks
      in \<lparr>returned = err, ctx_after = ctx, logged = lg, spawned = ts\<rparr>)"

text \<open>
  The value of \<open>ctx.Execution.Failed\<close> that both dispatchers read: after \<open>ctx.Next()\<close>
  and \<open>ctx.Stop(err)\<close>.
\<close>

definition job_failed :: "'c core_ops \<Rightarrow> 'c \<Rightarrow> bool" where
  "job_failed core ctx0 =
     Execution_Failed core (ctx_Stop core (fst (ctx_Next core ctx0)) (snd (ctx_Next core ctx0)))"

text \<open>The same per-job dispatcher with the \<open>OnlyOnError\<close> flag of every definition replaced.\<close>

definition with_OnlyOnError ::
  "(WebhookDefinition \<Rightarrow> bool) \<Rightarrow> PerJobWebhook \<Rightarrow> PerJobWebhook" where
  "with_OnlyOnError f w =
     w\<lparr>errorWebhooks := map (\<lambda>d. d\<lparr>OnlyOnError := f d\<rparr>) (errorWebhooks w),
       infoWebhooks := map (\<lambda>d. d\<lparr>OnlyOnError := f d\<rparr>) (infoWebhooks w)\<rparr>"

fun task_definition :: "'c task \<Rightarrow> string" where
  "task_definition (Go_sendWebhook w ctx) = name w"
| "task_definition (Go_perjob_sendWebhook w ctx d) = Name d"

section \<open>Delivery engine\<close>

text \<open>
  The network is a parameter: \<open>http k r\<close> is what happens to the \<open>k\<close>-th request
  (counting from 0) when it is \<open>r\<close>. Everything a delivery does is recorded in
  order as a list of effects.
\<close>

datatype http_request = Request string string "(string \<times> string) list" "string option"

datatype http_outcome =
    NewRequest_fails error
  | Do_fails error
  | Response int string

datatype effect =
    Logged log_entry
  | Slept Duration
  | Requested http_request

definition requests_made :: "effect list \<Rightarrow> nat" where
  "requests_made tr = length (filter (\<lambda>e. case e of Requested r \<Rightarrow> True | _ \<Rightarrow> False) tr)"

definition sendRequest ::
  "(nat \<Rightarrow> http_request \<Rightarrow> http_outcome) \<Rightarrow> nat \<Rightarrow> Webhook \<Rightarrow> string
     \<Rightarrow> (string \<times> string) list \<Rightarrow> string option \<Rightarrow> error option" where
  "sendRequest http k w u hs b =
     (case http k (Request (http_method w) u hs b) of
        NewRequest_fails err \<Rightarrow> Some (CreateRequestError err)
      | Do_fails err \<Rightarrow> Some (RequestFailed err)
      | Response StatusCode respBody \<Rightarrow>
          if StatusCode < 200 \<or> StatusCode \<ge> 300
          then Some (Non2xxStatus StatusCode (take 1024 respBody))
          else None)"

text \<open>
  The \<open>for\<close> loop of \<open>sendWithRetry\<close>. \<open>attempt\<close> and \<open>w.retryCount\<close> are Go ints
  compared as signed numbers; \<open>backoff *= 2\<close> is a multiplication of int64. The loop
  need not end (\<open>attempt++\<close> wraps around at the largest int), so the function is
  partial: \<open>None\<close> stands for a call that never returns.
\<close>

partial_function (option) sendWithRetry_loop ::
  "(nat \<Rightarrow> http_request \<Rightarrow> http_outcome) \<Rightarrow> Webhook \<Rightarrow> string \<Rightarrow> (string \<times> string) list
     \<Rightarrow> string option \<Rightarrow> go_int \<Rightarrow> Duration \<Rightarrow> error option \<Rightarrow> effect list
     \<Rightarrow> (error option \<times> effect list) option" where
  "sendWithRetry_loop http w u hs b attempt backoff lastErr tr =
     (if sint attempt \<le> sint (retryCount w) then
        (let tr1 = (if 0 < sint attempt
                    then tr @ [Logged (Debug_retry_attempt (name w) attempt (retryCount w) backoff),
                               Slept backoff]
                    else tr);
             backoff1 = (if 0 < sint attempt then backoff * 2 else backoff)
         in case sendRequest http (requests_made tr1) w u hs b of
              None \<Rightarrow> Some (None, tr1 @ [Requested (Request (http_method w) u hs b)])
            | Some err \<Rightarrow>
                sendWithRetry_loop http w u hs b (attempt + 1) backoff1 (Some err)
                  (tr1 @ [Requested (Request (http_method w) u hs b)]))
      else Some (lastErr, tr))"

declare sendWithRetry_loop.simps [code]

definition sendWithRetry ::
  "(nat \<Rightarrow> http_request \<Rightarrow> http_outcome) \<Rightarrow> Webhook \<Rightarrow> string \<Rightarrow> (string \<times> string) list
     \<Rightarrow> string option \<Rightarrow> (error option \<times> effect list) option" where
  "sendWithRetry http w u hs b = sendWithRetry_loop http w u hs b 0 (retryBackoff w) None []"

text \<open>The effects of a delivery without its log lines: the sleeps and the requests.\<close>

definition deliveries :: "effect list \<Rightarrow> effect list" where
  "deliveries tr = filter (\<lambda>e. case e of Logged l \<Rightarrow> False | _ \<Rightarrow> True) tr"

text \<open>What attempt number \<open>i\<close> of a delivery does when it is reached.\<close>

definition attempt_effects ::
  "Webhook \<Rightarrow> string \<Rightarrow> (string \<times> string) list \<Rightarrow> string option \<Rightarrow> nat \<Rightarrow> effect list" where
  "attempt_effects w u hs b i =
     (if 0 < i
      then [Logged (Debug_retry_attempt (name w) (of_nat i) (retryCount w)
                      (retryBackoff w * 2 ^ (i - 1))),
            Slept (retryBackoff w * 2 ^ (i - 1))]
      else []) @ [Requested (Request (http_method w) u hs b)]"

section \<open>Construction of a webhook from its definition\<close>

text \<open>\<open>time.ParseDuration\<close> is a parameter.\<close>

definition NewWebhookFromDefinition ::
  "(string \<Rightarrow> error + Duration) \<Rightarrow> WebhookDefinition \<Rightarrow> error + Webhook" where
  "NewWebhookFromDefinition ParseDuration d =
     (let mk = (\<lambda>rc rb. \<lparr>name = Name d, webhookType = Type d, active = Active d, url = URL d,
                  http_method = Method d, headers = Headers d, body = Body d,
                  onlyOnError = OnlyOnError d, timeout = Timeout d * time_Second,
                  retryCount = rc, retryBackoff = rb\<rparr>)
      in case Retry d of
           None \<Rightarrow> Inr (mk defaultRetryCount defaultRetryBackoff)
         | Some r \<Rightarrow>
             if Backoff r \<noteq> [] then
               (case ParseDuration (Backoff r) of
                  Inl err \<Rightarrow> Inl (InvalidRetryBackoff (Backoff r) err)
                | Inr duration \<Rightarrow> Inr (mk (Count r) duration))
             else Inr (mk (Count r) defaultRetryBackoff))"

section \<open>Template engine\<close>

text \<open>
  Package \<open>text/template\<close> and \<open>encoding/json\<close> are parameters, and so is the
  template data built from the context: \<open>'t\<close> is a parsed template, \<open>'d\<close> the
  \<open>WebhookTemplateData\<close>. \<open>json_Unmarshal_any\<close> is the error of decoding into an
  \<open>interface{}\<close> whose value is discarded.
\<close>

record ('t, 'd, 'c) template_lib =
  template_Parse :: "string \<Rightarrow> error + 't"
  template_Execute :: "'t \<Rightarrow> 'd \<Rightarrow> error + string"
  json_Marshal :: "json_value \<Rightarrow> error + string"
  json_Unmarshal_any :: "string \<Rightarrow> error option"
  buildTemplateData :: "'c \<Rightarrow> 'd"

definition executeTemplate :: "('t, 'd, 'c) template_lib \<Rightarrow> string \<Rightarrow> 'd \<Rightarrow> error + string" where
  "executeTemplate lib templateStr data =
     (case template_Parse lib templateStr of
        Inl err \<Rightarrow> Inl (TemplateParseError err)
      | Inr tmpl \<Rightarrow>
          (case template_Execute lib tmpl data of
             Inl err \<Rightarrow> Inl (TemplateExecutionError err)
           | Inr buf \<Rightarrow> Inr buf))"

text \<open>The two structured cases of the type switch share one body.\<close>

definition executeTemplateForBody_structured ::
  "('t, 'd, 'c) template_lib \<Rightarrow> json_value \<Rightarrow> 'd \<Rightarrow> error + string" where
  "executeTemplateForBody_structured lib v data =
     (case json_Marshal lib v of
        Inl err \<Rightarrow> Inl (MarshalBodyError err)
      | Inr jsonBytes \<Rightarrow>
          (case executeTemplate lib jsonBytes data of
             Inl err \<Rightarrow> Inl err
           | Inr result \<Rightarrow>
               (case json_Unmarshal_any lib result of
                  Some err \<Rightarrow> Inl (InvalidJSONResult err)
                | None \<Rightarrow> Inr result)))"

fun executeTemplateForBody ::
  "('t, 'd, 'c) template_lib \<Rightarrow> json_value \<Rightarrow> 'd \<Rightarrow> error + string" where
  "executeTemplateForBody lib (JString v) data =
     (case executeTemplate lib v data of Inl err \<Rightarrow> Inl err | Inr result \<Rightarrow> Inr result)"
| "executeTemplateForBody lib (JMap v) data = executeTemplateForBody_structured lib (JMap v) data"
| "executeTemplateForBody lib (JSlice v) data =
     executeTemplateForBody_structured lib (JSlice v) data"
| "executeTemplateForBody lib v data = Inl UnsupportedBodyType"

section \<open>Sending one webhook\<close>

text \<open>
  The loop over \<open>w.headers\<close>. Go visits a map in an unspecified order; the list gives
  the order of the run at hand.
\<close>

fun render_headers ::
  "('t, 'd, 'c) template_lib \<Rightarrow> 'd \<Rightarrow> (string \<times> string) list \<Rightarrow> (string \<times> string) list
     \<Rightarrow> (string \<times> error) + (string \<times> string) list" where
  "render_headers lib data [] acc = Inr acc"
| "render_headers lib data ((key, v) # rest) acc =
     (case executeTemplate lib v data of
        Inl err \<Rightarrow> Inl (key, err)
      | Inr templatedValue \<Rightarrow> render_headers lib data rest (acc @ [(key, templatedValue)]))"

definition sendWebhook ::
  "('t, 'd, 'c) template_lib \<Rightarrow> (nat \<Rightarrow> http_request \<Rightarrow> http_outcome) \<Rightarrow> Webhook \<Rightarrow> 'c
     \<Rightarrow> effect list option" where
  "sendWebhook lib http w ctx =
     (let templateData = buildTemplateData lib ctx
      in case executeTemplate lib (url w) templateData of
           Inl err \<Rightarrow> Some [Logged (Error_url_template (name w) err)]
         | Inr u \<Rightarrow>
             (case (if body w \<noteq> JNil
                    then (case executeTemplateForBody lib (body w) templateData of
                            Inl err \<Rightarrow> Inl err | Inr bs \<Rightarrow> Inr (Some bs))
                    else Inr None) of
                Inl err \<Rightarrow> Some [Logged (Error_body_template (name w) err)]
              | Inr bodyBytes \<Rightarrow>
                  (case render_headers lib templateData
                          (case headers w of None \<Rightarrow> [] | Some hs \<Rightarrow> hs) [] of
                     Inl (key, err) \<Rightarrow> Some [Logged (Error_header_template (name w) key err)]
                   | Inr hs \<Rightarrow>
                       (case sendWithRetry http w u hs bodyBytes of
                          None \<Rightarrow> None
                        | Some (Some err, tr) \<Rightarrow>
                            Some (tr @ [Logged (Error_failed_after_attempts (name w)
                                                  (retryCount w + 1) err)])
                        | Some (None, tr) \<Rightarrow>
                            Some (tr @ [Logged (Debug_sent_successfully (name w) u)])))))"

section \<open>Registry and loader\<close>

text \<open>
  The parts of the Go standard library that the loader and the per-job constructor call:
  the environment and the file system, \<open>json.Unmarshal\<close> into a \<open>WebhooksFile\<close> and
  into a \<open>[]string\<close>, \<open>time.ParseDuration\<close>, \<open>sort.Slice\<close> with the comparison given
  on elements, and \<open>strings.TrimSpace\<close>.
\<close>

record stdlib =
  os_Getenv :: "string \<Rightarrow> string"
  os_Stat_IsNotExist :: "string \<Rightarrow> bool"
  os_ReadFile :: "string \<Rightarrow> error + string"
  json_Unmarshal_WebhooksFile :: "string \<Rightarrow> error + WebhookDefinition list"
  time_ParseDuration :: "string \<Rightarrow> error + Duration"
  sort_Slice :: "(WebhookDefinition \<Rightarrow> WebhookDefinition \<Rightarrow> bool) \<Rightarrow> WebhookDefinition list
                  \<Rightarrow> WebhookDefinition list"
  json_Unmarshal_strings :: "string \<Rightarrow> error + string list"
  strings_TrimSpace :: "string \<Rightarrow> string"

record WebhookFileConfig =
  WebhookConfigFile :: string

type_synonym WebhookRegistry = "string \<rightharpoonup> WebhookDefinition"

definition NewWebhookRegistry :: WebhookRegistry where
  "NewWebhookRegistry = Map.empty"

definition Register :: "WebhookRegistry \<Rightarrow> WebhookDefinition \<Rightarrow> WebhookRegistry" where
  "Register r d = r(Name d \<mapsto> d)"

definition Get :: "WebhookRegistry \<Rightarrow> string \<Rightarrow> WebhookDefinition option" where
  "Get r n = r n"

definition validateWebhookType :: "string \<Rightarrow> error option" where
  "validateWebhookType webhookType' =
     (if webhookType' = WebhookTypeError \<or> webhookType' = WebhookTypeInfo
         \<or> webhookType' = WebhookTypeAll
      then None else Some (InvalidWebhookType webhookType'))"

text \<open>The defaults that the validation loop writes into a valid entry.\<close>

definition set_defaults :: "WebhookDefinition \<Rightarrow> WebhookDefinition" where
  "set_defaults d =
     d\<lparr>Method := (if Method d = [] then ''POST'' else Method d),
       Timeout := (if Timeout d = 0 then defaultTimeout_Seconds else Timeout d),
       Headers := (if Headers d = None then Some [] else Headers d)\<rparr>"

text \<open>The validation loop of \<open>parseWebhookConfigFile\<close>, from index \<open>i\<close> on.\<close>

fun validate_webhooks :: "nat \<Rightarrow> WebhookDefinition list \<Rightarrow> error + WebhookDefinition list" where
  "validate_webhooks i [] = Inr []"
| "validate_webhooks i (d # ds) =
     (if URL d = [] then Inl (MissingURL i)
      else if Type d = [] then Inl (MissingType (Name d))
      else case validateWebhookType (Type d) of
             Some err \<Rightarrow> Inl (InvalidType (Name d) err)
           | None \<Rightarrow>
               (case validate_webhooks (Suc i) ds of
                  Inl err \<Rightarrow> Inl err
                | Inr ds' \<Rightarrow> Inr (set_defaults d # ds')))"

definition parseWebhookConfigFile :: "stdlib \<Rightarrow> string \<Rightarrow> error + WebhookDefinition list" where
  "parseWebhookConfigFile lib path =
     (case os_ReadFile lib path of
        Inl err \<Rightarrow> Inl (ReadFileError err)
      | Inr data \<Rightarrow>
          (case json_Unmarshal_WebhooksFile lib data of
             Inl err \<Rightarrow> Inl (ParseJSONError err)
           | Inr webhooks \<Rightarrow> validate_webhooks 0 webhooks))"

record load_result =
  middlewares :: "Webhook list"
  registry :: WebhookRegistry
  load_log :: "log_entry list"

text \<open>The loop of \<open>LoadWebhookMiddlewares\<close> over the sorted definitions.\<close>

fun create_middlewares ::
  "stdlib \<Rightarrow> WebhookDefinition list \<Rightarrow> WebhookRegistry \<Rightarrow> load_result" where
  "create_middlewares lib [] reg = \<lparr>middlewares = [], registry = reg, load_log = []\<rparr>"
| "create_middlewares lib (d # ds) reg =
     (let reg1 = Register reg d;
          rest = create_middlewares lib ds reg1
      in case NewWebhookFromDefinition (time_ParseDuration lib) d of
           Inl err \<Rightarrow>
             rest\<lparr>load_log := Error_create_middleware (Name d) err # load_log rest\<rparr>
         | Inr middleware \<Rightarrow>
             rest\<lparr>middlewares := middleware # middlewares rest,
                  load_log := Notice_loaded (Name d) (Type d) (Active d) (Priority d)
                                # load_log rest\<rparr>)"

text \<open>The path of the config file: environment variable, then setting, then default.\<close>

definition config_path :: "stdlib \<Rightarrow> WebhookFileConfig \<Rightarrow> string" where
  "config_path lib config =
     (let configPath = os_Getenv lib ''WEBHOOK_CONFIG'';
          configPath = (if configPath = [] then WebhookConfigFile config else configPath)
      in if configPath = [] then defaultWebhookConfigPath else configPath)"

definition priority_less :: "WebhookDefinition \<Rightarrow> WebhookDefinition \<Rightarrow> bool" where
  "priority_less a b = (Priority a < Priority b)"

definition LoadWebhookMiddlewares :: "stdlib \<Rightarrow> WebhookFileConfig \<Rightarrow> load_result" where
  "LoadWebhookMiddlewares lib config =
     (let reg = NewWebhookRegistry;
          configPath = config_path lib config
      in if os_Stat_IsNotExist lib configPath then
           \<lparr>middlewares = [], registry = reg, load_log = [Debug_config_not_found configPath]\<rparr>
         else
           (case parseWebhookConfigFile lib configPath of
              Inl err \<Rightarrow>
                \<lparr>middlewares = [], registry = reg,
                 load_log = [Error_failed_to_parse configPath err]\<rparr>
            | Inr webhookDefs \<Rightarrow>
                if length webhookDefs = 0 then
                  \<lparr>middlewares = [], registry = reg,
                   load_log = [Debug_no_webhooks configPath]\<rparr>
                else
                  create_middlewares lib (sort_Slice lib priority_less webhookDefs) reg))"

section \<open>Construction of the per-job dispatcher\<close>

record WebhookConfig =
  WebhookErrorNames :: string
  WebhookInfoNames :: string

text \<open>
  Modelled from the spec: \<open>IsEmpty\<close>, a helper of the package whose source is missing.
  The dispatcher is "constructed from a job's two comma/JSON-list name references", and
  the call site reads "If config is empty, return nil": the configuration is empty when
  it equals its zero value, that is when both references are the empty string.
\<close>

definition IsEmpty :: "WebhookConfig \<Rightarrow> bool" where
  "IsEmpty c = (WebhookErrorNames c = [] \<and> WebhookInfoNames c = [])"

text \<open>\<open>strings.Split\<close> with a separator of one byte.\<close>

fun strings_Split :: "string \<Rightarrow> char \<Rightarrow> string list" where
  "strings_Split [] sep = [[]]"
| "strings_Split (x # xs) sep =
     (if x = sep then [] # strings_Split xs sep
      else (case strings_Split xs sep of
              [] \<Rightarrow> [[x]]
            | part # parts \<Rightarrow> (x # part) # parts))"

definition parseWebhookNames :: "stdlib \<Rightarrow> string \<Rightarrow> string list" where
  "parseWebhookNames lib namesStr =
     (if namesStr = [] then []
      else case json_Unmarshal_strings lib namesStr of
             Inr names \<Rightarrow> names
           | Inl err \<Rightarrow>
               filter (\<lambda>trimmed. trimmed \<noteq> [])
                 (map (strings_TrimSpace lib) (strings_Split namesStr (CHR '',''))))"

text \<open>
  The two loops that resolve the names. Each yields the notices logged so far and either
  the error that ends the construction or the definitions collected.
\<close>

fun collect_error_webhooks ::
  "WebhookRegistry \<Rightarrow> string list \<Rightarrow> log_entry list \<times> (error + WebhookDefinition list)" where
  "collect_error_webhooks reg [] = ([], Inr [])"
| "collect_error_webhooks reg (n # ns) =
     (case Get reg n of
        None \<Rightarrow> ([], Inl (UnknownErrorWebhook n))
      | Some d \<Rightarrow>
          if Type d \<noteq> WebhookTypeError \<and> Type d \<noteq> WebhookTypeAll
          then ([], Inl (WrongTypeForErrorNames n (Type d)))
          else
            (let lg = (if \<not> Active d then [Notice_inactive n] else []);
                 (lg', r) = collect_error_webhooks reg ns
             in (lg @ lg', case r of Inl err \<Rightarrow> Inl err | Inr ds \<Rightarrow> Inr (d # ds))))"

fun collect_info_webhooks ::
  "WebhookRegistry \<Rightarrow> string list \<Rightarrow> log_entry list \<times> (error + WebhookDefinition list)" where
  "collect_info_webhooks reg [] = ([], Inr [])"
| "collect_info_webhooks reg (n # ns) =
     (case Get reg n of
        None \<Rightarrow> ([], Inl (UnknownInfoWebhook n))
      | Some d \<Rightarrow>
          if Type d \<noteq> WebhookTypeInfo \<and> Type d \<noteq> WebhookTypeAll
          then ([], Inl (WrongTypeForInfoNames n (Type d)))
          else
            (let lg = (if \<not> Active d then [Notice_inactive n] else []);
                 (lg', r) = collect_info_webhooks reg ns
             in (lg @ lg', case r of Inl err \<Rightarrow> Inl err | Inr ds \<Rightarrow> Inr (d # ds))))"

text \<open>
  The result is the log and either an error or the middleware, which is nil (\<open>None\<close>)
  when no webhook is configured for the job.
\<close>

definition NewWebhookFromConfig ::
  "stdlib \<Rightarrow> WebhookConfig \<Rightarrow> WebhookRegistry
     \<Rightarrow> log_entry list \<times> (error + PerJobWebhook option)" where
  "NewWebhookFromConfig lib c reg =
     (if IsEmpty c then ([], Inr None)
      else
        let errorNames = parseWebhookNames lib (WebhookErrorNames c);
            infoNames = parseWebhookNames lib (WebhookInfoNames c)
        in if length errorNames = 0 \<and> length infoNames = 0 then ([], Inr None)
           else
             (case collect_error_webhooks reg errorNames of
                (lg1, Inl err) \<Rightarrow> (lg1, Inl err)
              | (lg1, Inr errorWebhooks') \<Rightarrow>
                  (case collect_info_webhooks reg infoNames of
                     (lg2, Inl err) \<Rightarrow> (lg1 @ lg2, Inl err)
                   | (lg2, Inr infoWebhooks') \<Rightarrow>
                       (lg1 @ lg2,
                        Inr (Some \<lparr>errorWebhooks = errorWebhooks',
                                   infoWebhooks = infoWebhooks'\<rparr>)))))"

text \<open>The bodies that the type switch treats as JSON objects or arrays.\<close>

fun is_structured :: "json_value \<Rightarrow> bool" where
  "is_structured (JMap m) = True"
| "is_structured (JSlice l) = True"
| "is_structured v = False"

text \<open>
  Vocabulary for the references of a job: the two parsed name lists, a name that the
  registry does not know or whose definition has a type that its list does not admit,
  the error reported for such a name, and the notices for inactive definitions.
\<close>

definition bad_error_reference :: "WebhookRegistry \<Rightarrow> string \<Rightarrow> bool" where
  "bad_error_reference reg n =
     (case Get reg n of None \<Rightarrow> True
      | Some d \<Rightarrow> Type d \<noteq> WebhookTypeError \<and> Type d \<noteq> WebhookTypeAll)"

definition bad_info_reference :: "WebhookRegistry \<Rightarrow> string \<Rightarrow> bool" where
  "bad_info_reference reg n =
     (case Get reg n of None \<Rightarrow> True
      | Some d \<Rightarrow> Type d \<noteq> WebhookTypeInfo \<and> Type d \<noteq> WebhookTypeAll)"

definition error_reference_error :: "WebhookRegistry \<Rightarrow> string \<Rightarrow> error" where
  "error_reference_error reg n =
     (case Get reg n of None \<Rightarrow> UnknownErrorWebhook n
      | Some d \<Rightarrow> WrongTypeForErrorNames n (Type d))"

definition info_reference_error :: "WebhookRegistry \<Rightarrow> string \<Rightarrow> error" where
  "info_reference_error reg n =
     (case Get reg n of None \<Rightarrow> UnknownInfoWebhook n
      | Some d \<Rightarrow> WrongTypeForInfoNames n (Type d))"

definition inactive_notices :: "WebhookRegistry \<Rightarrow> string list \<Rightarrow> log_entry list" where
  "inactive_notices reg ns = map Notice_inactive (filter (\<lambda>n. \<not> Active (the (Get reg n))) ns)"

definition errorNames_of :: "stdlib \<Rightarrow> WebhookConfig \<Rightarrow> string list" where
  "errorNames_of lib c = parseWebhookNames lib (WebhookErrorNames c)"

definition infoNames_of :: "stdlib \<Rightarrow> WebhookConfig \<Rightarrow> string list" where
  "infoNames_of lib c = parseWebhookNames lib (WebhookInfoNames c)"

section \<open>The sort of the Go standard library\<close>

text \<open>
  \<open>LoadWebhookMiddlewares\<close> orders the definitions with \<open>sort.Slice\<close>. This section
  transcribes \<open>sort.Slice\<close> as the Go standard library implements it from release 1.19
  on (the pattern-defeating quicksort of \<open>sort/zsortfunc.go\<close>), so that the order it
  produces can be computed. Indices are Go ints; they stay within the slice, and the
  slice is a list that \<open>Swap\<close> updates. \<open>lessf\<close> compares two elements, as the
  \<open>less\<close> closure of the caller compares the elements at two indices. Go's integer
  division truncates.
\<close>

definition quo :: "int \<Rightarrow> int \<Rightarrow> int" where
  "quo a b = (if (a < 0) = (b < 0) then \<bar>a\<bar> div \<bar>b\<bar> else - (\<bar>a\<bar> div \<bar>b\<bar>))"

definition Swap :: "'a list \<Rightarrow> int \<Rightarrow> int \<Rightarrow> 'a list" where
  "Swap data i j = data[nat i := data ! nat j, nat j := data ! nat i]"

definition Less :: "('a \<Rightarrow> 'a \<Rightarrow> bool) \<Rightarrow> 'a list \<Rightarrow> int \<Rightarrow> int \<Rightarrow> bool" where
  "Less lessf data i j = lessf (data ! nat i) (data ! nat j)"

text \<open>\<open>insertionSort_func\<close>: the inner loop moves the element at \<open>j\<close> to the left.\<close>

function insertion_shift :: "('a \<Rightarrow> 'a \<Rightarrow> bool) \<Rightarrow> 'a list \<Rightarrow> int \<Rightarrow> int \<Rightarrow> 'a list" where
  "insertion_shift lessf data a j =
     (if j > a \<and> Less lessf data j (j - 1)
      then insertion_shift lessf (Swap data j (j - 1)) a (j - 1) else data)"
  by pat_completeness auto
termination
  by (relation "measure (\<lambda>(lessf, data, a, j). nat (j - a))") auto

declare insertion_shift.simps [simp del]

definition insertionSort_func :: "('a \<Rightarrow> 'a \<Rightarrow> bool) \<Rightarrow> 'a list \<Rightarrow> int \<Rightarrow> int \<Rightarrow> 'a list" where
  "insertionSort_func lessf data a b =
     fold (\<lambda>i d. insertion_shift lessf d a i) [a + 1..b - 1] data"

text \<open>
  \<open>siftDown_func\<close> and \<open>heapSort_func\<close>. \<open>root\<close> starts at a loop index that is not
  negative and only grows; the first test includes that bound, which makes the function
  total.
\<close>

function siftDown_func ::
  "('a \<Rightarrow> 'a \<Rightarrow> bool) \<Rightarrow> 'a list \<Rightarrow> int \<Rightarrow> int \<Rightarrow> int \<Rightarrow> 'a list" where
  "siftDown_func lessf data root hi first =
     (let child = 2 * root + 1
      in if child \<ge> hi \<or> root < 0 then data
         else
           let child = (if child + 1 < hi \<and> Less lessf data (first + child) (first + child + 1)
                        then child + 1 else child)
           in if \<not> Less lessf data (first + root) (first + child) then data
              else siftDown_func lessf (Swap data (first + root) (first + child)) child hi first)"
  by pat_completeness auto
termination
  by (relation "measure (\<lambda>(lessf, data, root, hi, first). nat (hi - root))") (auto simp: Let_def)

declare siftDown_func.simps [simp del]

definition heapSort_func :: "('a \<Rightarrow> 'a \<Rightarrow> bool) \<Rightarrow> 'a list \<Rightarrow> int \<Rightarrow> int \<Rightarrow> 'a list" where
  "heapSort_func lessf data a b =
     (let first = a; lo = 0; hi = b - a;
          data = fold (\<lambda>i d. siftDown_func lessf d i hi first) (rev [0..quo (hi - 1) 2]) data
      in fold (\<lambda>i d. siftDown_func lessf (Swap d first (first + i)) lo i first)
           (rev [0..hi - 1]) data)"

text \<open>\<open>choosePivot_func\<close> with its helpers; \<open>swaps\<close> is threaded through.\<close>

datatype sortedHint = unknownHint | increasingHint | decreasingHint

definition order2_func ::
  "('a \<Rightarrow> 'a \<Rightarrow> bool) \<Rightarrow> 'a list \<Rightarrow> int \<Rightarrow> int \<Rightarrow> int \<Rightarrow> int \<times> int \<times> int" where
  "order2_func lessf data a b swaps =
     (if Less lessf data b a then (b, a, swaps + 1) else (a, b, swaps))"

definition median_func ::
  "('a \<Rightarrow> 'a \<Rightarrow> bool) \<Rightarrow> 'a list \<Rightarrow> int \<Rightarrow> int \<Rightarrow> int \<Rightarrow> int \<Rightarrow> int \<times> int" where
  "median_func lessf data a b c swaps =
     (let (a, b, swaps) = order2_func lessf data a b swaps;
          (b, c, swaps) = order2_func lessf data b c swaps;
          (a, b, swaps) = order2_func lessf data a b swaps
      in (b, swaps))"

definition medianAdjacent_func ::
  "('a \<Rightarrow> 'a \<Rightarrow> bool) \<Rightarrow> 'a list \<Rightarrow> int \<Rightarrow> int \<Rightarrow> int \<times> int" where
  "medianAdjacent_func lessf data a swaps = median_func lessf data (a - 1) a (a + 1) swaps"

definition choosePivot_func ::
  "('a \<Rightarrow> 'a \<Rightarrow> bool) \<Rightarrow> 'a list \<Rightarrow> int \<Rightarrow> int \<Rightarrow> int \<times> sortedHint" where
  "choosePivot_func lessf data a b =
     (let shortestNinther = 50; maxSwaps = 4 * 3;
          l = b - a;
          swaps = 0;
          i = a + quo l 4 * 1;
          j = a + quo l 4 * 2;
          k = a + quo l 4 * 3;
          (j, swaps) =
            (if l \<ge> 8 then
               let (i, j, k, swaps) =
                     (if l \<ge> shortestNinther then
                        let (i, swaps) = medianAdjacent_func lessf data i swaps;
                            (j, swaps) = medianAdjacent_func lessf data j swaps;
                            (k, swaps) = medianAdjacent_func lessf data k swaps
                        in (i, j, k, swaps)
                      else (i, j, k, swaps))
               in median_func lessf data i j k swaps
             else (j, swaps))
      in if swaps = 0 then (j, increasingHint)
         else if swaps = maxSwaps then (j, decreasingHint)
         else (j, unknownHint))"

text \<open>\<open>reverseRange_func\<close>.\<close>

function reverseRange_loop :: "'a list \<Rightarrow> int \<Rightarrow> int \<Rightarrow> 'a list" where
  "reverseRange_loop data i j =
     (if i < j then reverseRange_loop (Swap data i j) (i + 1) (j - 1) else data)"
  by pat_completeness auto
termination
  by (relation "measure (\<lambda>(data, i, j). nat (j - i))") auto

declare reverseRange_loop.simps [simp del]

definition reverseRange_func :: "'a list \<Rightarrow> int \<Rightarrow> int \<Rightarrow> 'a list" where
  "reverseRange_func data a b = reverseRange_loop data a (b - 1)"

text \<open>\<open>partialInsertionSort_func\<close>: its three inner loops, then the outer loop.\<close>

function skip_ordered :: "('a \<Rightarrow> 'a \<Rightarrow> bool) \<Rightarrow> 'a list \<Rightarrow> int \<Rightarrow> int \<Rightarrow> int" where
  "skip_ordered lessf data b i =
     (if i < b \<and> \<not> Less lessf data i (i - 1) then skip_ordered lessf data b (i + 1) else i)"
  by pat_completeness auto
termination
  by (relation "measure (\<lambda>(lessf, data, b, i). nat (b - i))") auto

declare skip_ordered.simps [simp del]

function shift_smaller :: "('a \<Rightarrow> 'a \<Rightarrow> bool) \<Rightarrow> 'a list \<Rightarrow> int \<Rightarrow> 'a list" where
  "shift_smaller lessf data j =
     (if j \<ge> 1 then
        (if \<not> Less lessf data j (j - 1) then data
         else shift_smaller lessf (Swap data j (j - 1)) (j - 1))
      else data)"
  by pat_completeness auto
termination
  by (relation "measure (\<lambda>(lessf, data, j). nat j)") auto

declare shift_smaller.simps [simp del]

function shift_greater :: "('a \<Rightarrow> 'a \<Rightarrow> bool) \<Rightarrow> 'a list \<Rightarrow> int \<Rightarrow> int \<Rightarrow> 'a list" where
  "shift_greater lessf data b j =
     (if j < b then
        (if \<not> Less lessf data j (j - 1) then data
         else shift_greater lessf (Swap data j (j - 1)) b (j + 1))
      else data)"
  by pat_completeness auto
termination
  by (relation "measure (\<lambda>(lessf, data, b, j). nat (b - j))") auto

declare shift_greater.simps [simp del]

text \<open>The outer loop of partialInsertionSort with \<open>n\<close> of its \<open>maxSteps\<close> rounds left.\<close>

fun partialInsertionSort_steps ::
  "nat \<Rightarrow> ('a \<Rightarrow> 'a \<Rightarrow> bool) \<Rightarrow> 'a list \<Rightarrow> int \<Rightarrow> int \<Rightarrow> int \<Rightarrow> 'a list \<times> bool" where
  "partialInsertionSort_steps 0 lessf data a b i = (data, False)"
| "partialInsertionSort_steps (Suc n) lessf data a b i =
     (let shortestShifting = 50;
          i = skip_ordered lessf data b i
      in if i = b then (data, True)
         else if b - a < shortestShifting then (data, False)
         else
           let data = Swap data i (i - 1);
               data = (if i - a \<ge> 2 then shift_smaller lessf data (i - 1) else data);
               data = (if b - i \<ge> 2 then shift_greater lessf data b (i + 1) else data)
           in partialInsertionSort_steps n lessf data a b i)"

definition partialInsertionSort_func ::
  "('a \<Rightarrow> 'a \<Rightarrow> bool) \<Rightarrow> 'a list \<Rightarrow> int \<Rightarrow> int \<Rightarrow> 'a list \<times> bool" where
  "partialInsertionSort_func lessf data a b =
     (let maxSteps = 5 in partialInsertionSort_steps maxSteps lessf data a b (a + 1))"

text \<open>
  \<open>breakPatterns_func\<close> with \<open>bits.Len\<close>, the xorshift generator and
  \<open>nextPowerOfTwo\<close>.
\<close>

fun bits_Len :: "nat \<Rightarrow> nat" where
  "bits_Len n = (if n = 0 then 0 else Suc (bits_Len (n div 2)))"

declare bits_Len.simps [simp del]

definition xorshift_Next :: "64 word \<Rightarrow> 64 word" where
  "xorshift_Next r =
     (let r = r XOR push_bit 13 r;
          r = r XOR drop_bit 7 r;
          r = r XOR push_bit 17 r
      in r)"

definition nextPowerOfTwo :: "int \<Rightarrow> 64 word" where
  "nextPowerOfTwo length' = push_bit (bits_Len (nat length')) 1"

text \<open>One round of the loop of breakPatterns: the new generator state and the data.\<close>

definition breakPatterns_round ::
  "int \<Rightarrow> int \<Rightarrow> 64 word \<Rightarrow> int \<Rightarrow> 64 word \<times> 'a list \<Rightarrow> int \<Rightarrow> 64 word \<times> 'a list" where
  "breakPatterns_round a length' modulus idx st i =
     (let random = xorshift_Next (fst st);
          other = sint (random AND (modulus - 1));
          other = (if other \<ge> length' then other - length' else other)
      in (random, Swap (snd st) (idx + i) (a + other)))"

definition breakPatterns_func :: "'a list \<Rightarrow> int \<Rightarrow> int \<Rightarrow> 'a list" where
  "breakPatterns_func data a b =
     (let length' = b - a
      in if length' \<ge> 8 then
           let random = (word_of_int length' :: 64 word);
               modulus = nextPowerOfTwo length';
               idx = a + quo length' 4 * 2 - 1
           in snd (fold (\<lambda>i st. breakPatterns_round a length' modulus idx st i) [0..2]
                     (random, data))
         else data)"

text \<open>
  \<open>partition_func\<close>: the two scanning loops (written twice in the source), the
  \<open>for\<close> loop that swaps, and the function. The lemmas bound the scans; they give
  the termination of the loops and of the sort.
\<close>

function scan_up :: "('a \<Rightarrow> 'a \<Rightarrow> bool) \<Rightarrow> 'a list \<Rightarrow> int \<Rightarrow> int \<Rightarrow> int \<Rightarrow> int" where
  "scan_up lessf data a i j =
     (if i \<le> j \<and> Less lessf data i a then scan_up lessf data a (i + 1) j else i)"
  by pat_completeness auto
termination
  by (relation "measure (\<lambda>(lessf, data, a, i, j). nat (j + 1 - i))") auto

declare scan_up.simps [simp del]

function scan_down :: "('a \<Rightarrow> 'a \<Rightarrow> bool) \<Rightarrow> 'a list \<Rightarrow> int \<Rightarrow> int \<Rightarrow> int \<Rightarrow> int" where
  "scan_down lessf data a i j =
     (if i \<le> j \<and> \<not> Less lessf data j a then scan_down lessf data a i (j - 1) else j)"
  by pat_completeness auto
termination
  by (relation "measure (\<lambda>(lessf, data, a, i, j). nat (j + 1 - i))") auto

declare scan_down.simps [simp del]

function partition_loop ::
  "('a \<Rightarrow> 'a \<Rightarrow> bool) \<Rightarrow> 'a list \<Rightarrow> int \<Rightarrow> int \<Rightarrow> int \<Rightarrow> 'a list \<times> int" where
  "partition_loop lessf data a i j =
     (let i = scan_up lessf data a i j;
          j = scan_down lessf data a i j
      in if i > j then (data, j)
         else partition_loop lessf (Swap data i j) a (i + 1) (j - 1))"
  by pat_completeness auto


lemma scan_up_ge: "i \<le> scan_up lessf data a i j"
proof (induction lessf data a i j rule: scan_up.induct)
  case (1 lessf data a i j)
  then show ?case by (subst scan_up.simps) (auto split: if_splits)
qed

lemma scan_down_le: "scan_down lessf data a i j \<le> j"
proof (induction lessf data a i j rule: scan_down.induct)
  case (1 lessf data a i j)
  then show ?case by (subst scan_down.simps) (auto split: if_splits)
qed

lemma scan_down_ge: "i - 1 \<le> j \<Longrightarrow> i - 1 \<le> scan_down lessf data a i j"
proof (induction lessf data a i j rule: scan_down.induct)
  case (1 lessf data a i j)
  then show ?case by (subst scan_down.simps) (auto split: if_splits)
qed

termination partition_loop
proof (relation "measure (\<lambda>(lessf, data, a, i, j). nat (j + 1 - i))", goal_cases)
  case 1
  show ?case by simp
next
  case (2 lessf data a i j x xa)
  then show ?case
    using scan_up_ge [of i lessf data a j] scan_down_le [of lessf data a x j] by simp
qed

declare partition_loop.simps [simp del]

definition partition_func ::
  "('a \<Rightarrow> 'a \<Rightarrow> bool) \<Rightarrow> 'a list \<Rightarrow> int \<Rightarrow> int \<Rightarrow> int \<Rightarrow> 'a list \<times> int \<times> bool" where
  "partition_func lessf data a b pivot =
     (let data = Swap data a pivot;
          i = a + 1; j = b - 1;
          i = scan_up lessf data a i j;
          j = scan_down lessf data a i j
      in if i > j then (Swap data j a, j, True)
         else
           let data = Swap data i j;
               (data, j) = partition_loop lessf data a (i + 1) (j - 1)
           in (Swap data j a, j, False))"

text \<open>\<open>partitionEqual_func\<close>.\<close>

function scan_up_equal :: "('a \<Rightarrow> 'a \<Rightarrow> bool) \<Rightarrow> 'a list \<Rightarrow> int \<Rightarrow> int \<Rightarrow> int \<Rightarrow> int" where
  "scan_up_equal lessf data a i j =
     (if i \<le> j \<and> \<not> Less lessf data a i then scan_up_equal lessf data a (i + 1) j else i)"
  by pat_completeness auto
termination
  by (relation "measure (\<lambda>(lessf, data, a, i, j). nat (j + 1 - i))") auto

declare scan_up_equal.simps [simp del]

function scan_down_equal :: "('a \<Rightarrow> 'a \<Rightarrow> bool) \<Rightarrow> 'a list \<Rightarrow> int \<Rightarrow> int \<Rightarrow> int \<Rightarrow> int" where
  "scan_down_equal lessf data a i j =
     (if i \<le> j \<and> Less lessf data a j then scan_down_equal lessf data a i (j - 1) else j)"
  by pat_completeness auto
termination
  by (relation "measure (\<lambda>(lessf, data, a, i, j). nat (j + 1 - i))") auto

declare scan_down_equal.simps [simp del]

lemma scan_up_equal_ge: "i \<le> scan_up_equal lessf data a i j"
proof (induction lessf data a i j rule: scan_up_equal.induct)
  case (1 lessf data a i j)
  then show ?case by (subst scan_up_equal.simps) (auto split: if_splits)
qed

lemma scan_down_equal_le: "scan_down_equal lessf data a i j \<le> j"
proof (induction lessf data a i j rule: scan_down_equal.induct)
  case (1 lessf data a i j)
  then show ?case by (subst scan_down_equal.simps) (auto split: if_splits)
qed

function partitionEqual_loop ::
  "('a \<Rightarrow> 'a \<Rightarrow> bool) \<Rightarrow> 'a list \<Rightarrow> int \<Rightarrow> int \<Rightarrow> int \<Rightarrow> 'a list \<times> int" where
  "partitionEqual_loop lessf data a i j =
     (let i = scan_up_equal lessf data a i j;
          j = scan_down_equal lessf data a i j
      in if i > j then (data, i)
         else partitionEqual_loop lessf (Swap data i j) a (i + 1) (j - 1))"
  by pat_completeness auto
termination
proof (relation "measure (\<lambda>(lessf, data, a, i, j). nat (j + 1 - i))", goal_cases)
  case 1
  show ?case by simp
next
  case (2 lessf data a i j x xa)
  then show ?case
    using scan_up_equal_ge [of i lessf data a j] scan_down_equal_le [of lessf data a x j] by simp
qed

declare partitionEqual_loop.simps [simp del]

definition partitionEqual_func ::
  "('a \<Rightarrow> 'a \<Rightarrow> bool) \<Rightarrow> 'a list \<Rightarrow> int \<Rightarrow> int \<Rightarrow> int \<Rightarrow> 'a list \<times> int" where
  "partitionEqual_func lessf data a b pivot =
     (let data = Swap data a pivot
      in partitionEqual_loop lessf data a (a + 1) (b - 1))"

text \<open>
  \<open>pdqsort_func\<close>: one round of its loop; the recursive call on the shorter side is
  the inner call, the next round of the loop the outer one.
\<close>

function pdqsort_func ::
  "('a \<Rightarrow> 'a \<Rightarrow> bool) \<Rightarrow> 'a list \<Rightarrow> int \<Rightarrow> int \<Rightarrow> int \<Rightarrow> bool \<Rightarrow> bool \<Rightarrow> 'a list" where
  "pdqsort_func lessf data a b limit wasBalanced wasPartitioned =
     (let maxInsertion = 12;
          length' = b - a
      in if length' \<le> maxInsertion then insertionSort_func lessf data a b
         else if limit = 0 then heapSort_func lessf data a b
         else
           let (data, limit) =
                 (if \<not> wasBalanced then (breakPatterns_func data a b, limit - 1)
                  else (data, limit));
               (pivot, hint) = choosePivot_func lessf data a b;
               (data, pivot, hint) =
                 (if hint = decreasingHint
                  then (reverseRange_func data a b, (b - 1) - (pivot - a), increasingHint)
                  else (data, pivot, hint));
               (data, sorted') =
                 (if wasBalanced \<and> wasPartitioned \<and> hint = increasingHint
                  then partialInsertionSort_func lessf data a b
                  else (data, False))
           in if sorted' then data
              else if a > 0 \<and> \<not> Less lessf data (a - 1) pivot then
                let (data, mid) = partitionEqual_func lessf data a b pivot
                in pdqsort_func lessf data mid b limit wasBalanced wasPartitioned
              else
                let (data, mid, alreadyPartitioned) = partition_func lessf data a b pivot;
                    leftLen = mid - a; rightLen = b - mid;
                    balanceThreshold = quo length' 8
                in if leftLen < rightLen then
                     pdqsort_func lessf (pdqsort_func lessf data a mid limit True True)
                       (mid + 1) b limit (leftLen \<ge> balanceThreshold) alreadyPartitioned
                   else
                     pdqsort_func lessf (pdqsort_func lessf data (mid + 1) b limit True True)
                       a mid limit (rightLen \<ge> balanceThreshold) alreadyPartitioned)"
  by pat_completeness auto



lemma partition_loop_bounds:
  "partition_loop lessf data a i j = (d, j') \<Longrightarrow> min j (i - 1) \<le> j' \<and> j' \<le> j"
proof (induction lessf data a i j arbitrary: d j' rule: partition_loop.induct)
  case (1 lessf data a i j)
  let ?i = "scan_up lessf data a i j"
  let ?j = "scan_down lessf data a ?i j"
  have i: "i \<le> ?i" by (rule scan_up_ge)
  have j: "?j \<le> j" by (rule scan_down_le)
  show ?case
  proof (cases "?i > ?j")
    case True
    with "1.prems" have "j' = ?j"
      by (subst (asm) partition_loop.simps) (auto simp add: Let_def)
    moreover have "min j (?i - 1) \<le> ?j"
    proof (cases "?i - 1 \<le> j")
      case True
      then show ?thesis using scan_down_ge [of ?i j lessf data a] by simp
    next
      case False
      then have "?j = j" by (subst scan_down.simps) simp
      then show ?thesis by simp
    qed
    ultimately show ?thesis using i j by simp
  next
    case False
    with "1.prems" have r: "partition_loop lessf (Swap data ?i ?j) a (?i + 1) (?j - 1) = (d, j')"
      by (subst (asm) partition_loop.simps) (simp add: Let_def)
    have "min (?j - 1) (?i + 1 - 1) \<le> j' \<and> j' \<le> ?j - 1"
      using False by (intro "1.IH" [OF refl refl _ r]) simp
    then show ?thesis using i j False by (auto simp: min_def split: if_splits)
  qed
qed

lemma scan_up_le: "i \<le> j + 1 \<Longrightarrow> scan_up lessf data a i j \<le> j + 1"
proof (induction lessf data a i j rule: scan_up.induct)
  case (1 lessf data a i j)
  then show ?case by (subst scan_up.simps) (auto split: if_splits)
qed

lemma partition_func_mid:
  assumes "partition_func lessf data a b pivot = (d, mid, ap)" and "a < b"
  shows "a \<le> mid \<and> mid < b"
proof -
  let ?data = "Swap data a pivot"
  let ?i = "scan_up lessf ?data a (a + 1) (b - 1)"
  let ?j = "scan_down lessf ?data a ?i (b - 1)"
  have i: "a + 1 \<le> ?i" by (rule scan_up_ge)
  have i': "?i \<le> b" using scan_up_le [of "a + 1" "b - 1" lessf ?data a] assms(2) by simp
  have j: "?j \<le> b - 1" by (rule scan_down_le)
  have j': "?i - 1 \<le> ?j" using scan_down_ge [of ?i "b - 1" lessf ?data a] i' by simp
  show ?thesis
  proof (cases "?i > ?j")
    case True
    with assms(1) have "mid = ?j" by (simp add: partition_func_def Let_def)
    then show ?thesis using i j j' by simp
  next
    case False
    obtain d' j'' where r: "partition_loop lessf (Swap ?data ?i ?j) a (?i + 1) (?j - 1) = (d', j'')"
      by (cases "partition_loop lessf (Swap ?data ?i ?j) a (?i + 1) (?j - 1)")
    with False assms(1) have "mid = j''" by (simp add: partition_func_def Let_def)
    moreover have "min (?j - 1) (?i + 1 - 1) \<le> j'' \<and> j'' \<le> ?j - 1"
      by (rule partition_loop_bounds [OF r])
    ultimately show ?thesis using i j False by (auto simp: min_def split: if_splits)
  qed
qed

lemma partitionEqual_loop_ge:
  "partitionEqual_loop lessf data a i j = (d, i') \<Longrightarrow> i \<le> i'"
proof (induction lessf data a i j arbitrary: d i' rule: partitionEqual_loop.induct)
  case (1 lessf data a i j)
  let ?i = "scan_up_equal lessf data a i j"
  let ?j = "scan_down_equal lessf data a ?i j"
  have i: "i \<le> ?i" by (rule scan_up_equal_ge)
  show ?case
  proof (cases "?i > ?j")
    case True
    with "1.prems" have "i' = ?i"
      by (subst (asm) partitionEqual_loop.simps) (auto simp add: Let_def)
    then show ?thesis using i by simp
  next
    case False
    with "1.prems" have r: "partitionEqual_loop lessf (Swap data ?i ?j) a (?i + 1) (?j - 1) = (d, i')"
      by (subst (asm) partitionEqual_loop.simps) (simp add: Let_def)
    have "?i + 1 \<le> i'"
      using False by (intro "1.IH" [OF refl refl _ r]) simp
    then show ?thesis using i by simp
  qed
qed

lemma partitionEqual_func_mid:
  "partitionEqual_func lessf data a b pivot = (d, mid) \<Longrightarrow> a < mid"
  using partitionEqual_loop_ge [of lessf "Swap data a pivot" a "a + 1" "b - 1" d mid]
  by (simp add: partitionEqual_func_def Let_def)

lemma partition_func_mid_sym:
  "(d, mid, ap) = partition_func lessf data a b pivot \<Longrightarrow> a < b \<Longrightarrow> a \<le> mid \<and> mid < b"
  using partition_func_mid [of lessf data a b pivot d mid ap] by simp

lemma partitionEqual_func_mid_sym:
  "(d, mid) = partitionEqual_func lessf data a b pivot \<Longrightarrow> a < mid"
  using partitionEqual_func_mid [of lessf data a b pivot d mid] by simp

termination pdqsort_func
  apply (relation "measure (\<lambda>(lessf, data, a, b, limit, wb, wp). nat (b - a))")
  apply simp
       apply (clarify, frule partitionEqual_func_mid_sym, simp)
      apply (clarify, frule partition_func_mid_sym, simp, simp)
     apply (clarify, frule partition_func_mid_sym, simp, simp)
    apply (clarify, frule partition_func_mid_sym, simp, simp)
   apply (clarify, frule partition_func_mid_sym, simp, simp)
  done


declare pdqsort_func.simps [simp del]

text \<open>\<open>sort.Slice\<close>.\<close>

definition go_sort_Slice :: "('a \<Rightarrow> 'a \<Rightarrow> bool) \<Rightarrow> 'a list \<Rightarrow> 'a list" where
  "go_sort_Slice lessf x =
     (let length' = int (length x);
          limit = int (bits_Len (nat length'))
      in pdqsort_func lessf x 0 length' limit True True)"

text \<open>
  Vocabulary for the config file: an entry that the validation loop rejects, and the
  error it reports for the entry at index \<open>i\<close>.
\<close>

definition entry_invalid :: "WebhookDefinition \<Rightarrow> bool" where
  "entry_invalid d =
     (URL d = [] \<or> Type d = [] \<or>
      (Type d \<noteq> WebhookTypeError \<and> Type d \<noteq> WebhookTypeInfo \<and> Type d \<noteq> WebhookTypeAll))"

definition entry_error :: "nat \<Rightarrow> WebhookDefinition \<Rightarrow> error" where
  "entry_error i d =
     (if URL d = [] then MissingURL i
      else if Type d = [] then MissingType (Name d)
      else InvalidType (Name d) (InvalidWebhookType (Type d)))"



text \<open>
  Vocabulary for the correctness of the sort. \<open>inb\<close>: an index of the slice.
  \<open>frame data data' a b\<close>: \<open>data'\<close> is a permutation of \<open>data\<close> that differs from it
  only at the indices from \<open>a\<close> to \<open>b - 1\<close>. \<open>sorted_range\<close>: the keys of the
  elements from \<open>a\<close> to \<open>b - 1\<close> ascend. \<open>left_bound\<close>: when the range does not start
  the slice, no element of the range has a smaller key than the element just before it.
  \<open>hp\<close>: in the heap laid out from index \<open>first\<close>, the node \<open>r\<close> has no child below
  \<open>hi\<close> with a greater key.
\<close>

definition inb :: "'a list \<Rightarrow> int \<Rightarrow> bool" where
  "inb data i = (0 \<le> i \<and> i < int (length data))"

definition frame :: "'a list \<Rightarrow> 'a list \<Rightarrow> int \<Rightarrow> int \<Rightarrow> bool" where
  "frame data data' a b =
     (length data' = length data \<and> mset data' = mset data \<and>
      (\<forall>i. inb data i \<and> (i < a \<or> b \<le> i) \<longrightarrow> data' ! nat i = data ! nat i))"

definition sorted_range :: "('a \<Rightarrow> int) \<Rightarrow> 'a list \<Rightarrow> int \<Rightarrow> int \<Rightarrow> bool" where
  "sorted_range f data a b =
     (\<forall>i j. a \<le> i \<and> i \<le> j \<and> j < b \<longrightarrow> f (data ! nat i) \<le> f (data ! nat j))"

definition left_bound :: "('a \<Rightarrow> int) \<Rightarrow> 'a list \<Rightarrow> int \<Rightarrow> int \<Rightarrow> bool" where
  "left_bound f d a b =
     (0 < a \<longrightarrow> (\<forall>i. a \<le> i \<and> i < b \<longrightarrow> f (d ! nat (a - 1)) \<le> f (d ! nat i)))"

definition hp :: "('a \<Rightarrow> int) \<Rightarrow> 'a list \<Rightarrow> int \<Rightarrow> int \<Rightarrow> int \<Rightarrow> bool" where
  "hp f d first hi r =
     (\<forall>c. (c = 2 * r + 1 \<or> c = 2 * r + 2) \<and> c < hi \<longrightarrow>
          f (d ! nat (first + c)) \<le> f (d ! nat (first + r)))"

section \<open>Concrete inputs used in the examples\<close>

text \<open>
  A pipeline whose job returns \<open>e\<close>; the context is the \<open>Failed\<close> flag, set by
  \<open>ctx.Stop\<close> when the error is not nil.
\<close>

definition pipeline_of :: "error option \<Rightarrow> bool core_ops" where
  "pipeline_of e = \<lparr>ctx_Next = (\<lambda>c. (e, c)), ctx_Stop = (\<lambda>err c. err \<noteq> None),
                    Execution_Failed = (\<lambda>c. c)\<rparr>"

definition slack_hook :: Webhook where
  "slack_hook = \<lparr>name = ''slack'', webhookType = ''error'', active = True,
     url = ''http://hooks.example/x'', http_method = ''POST'', headers = Some [],
     body = JString ''Job {{.JobName}} failed'', onlyOnError = True, timeout = 10000000000,
     retryCount = 2, retryBackoff = 1000000000\<rparr>"


definition always500 :: "nat \<Rightarrow> http_request \<Rightarrow> http_outcome" where
  "always500 k r = Response 500 ''boom''"

definition fail_twice :: "nat \<Rightarrow> http_request \<Rightarrow> http_outcome" where
  "fail_twice k r = (if k < 2 then Response 500 ''boom'' else Response 200 ''ok'')"

text \<open>A template library that renders every template to itself.\<close>

definition plain_lib :: "(string, unit, bool) template_lib" where
  "plain_lib = \<lparr>template_Parse = (\<lambda>s. Inr s), template_Execute = (\<lambda>t d. Inr t),
     json_Marshal = (\<lambda>v. Inr ''{}''), json_Unmarshal_any = (\<lambda>s. None),
     buildTemplateData = (\<lambda>c. ())\<rparr>"

definition careless_definition :: WebhookDefinition where
  "careless_definition = \<lparr>Name = ''careless'', Type = ''all'', Active = True, Priority = 0,
     URL = ''http://hooks.example/y'', Method = ''POST'', Headers = None, Body = JNil,
     OnlyOnError = False, Timeout = 10, Retry = Some \<lparr>Count = - 1, Backoff = ''''\<rparr>\<rparr>"

definition no_durations :: "string \<Rightarrow> error + Duration" where
  "no_durations s = Inl (ExternalError ''time: invalid duration'')"

text \<open>
  A template library that renders: executing a template replaces every
  \<open>{{.JobName}}\<close> in it by the job name, which is all of the template data; \<open>{{\<close>
  does not parse. \<open>json_Marshal\<close> and \<open>json_Unmarshal_any\<close> are what
  \<open>encoding/json\<close> returns for the bodies and the rendered texts of the examples:
  the array holding the string \<open>{{.JobName}}\<close>, the array holding \<open>true\<close>, and the
  texts they render to for the job name \<open>backup\<close>.
\<close>

fun render_JobName :: "string \<Rightarrow> string \<Rightarrow> string" where
  "render_JobName d [] = []"
| "render_JobName d (c # cs) =
     (if take 12 (c # cs) = ''{{.JobName}}'' then d @ render_JobName d (drop 11 cs)
      else c # render_JobName d cs)"

definition quoted :: "string \<Rightarrow> string" where
  "quoted s = CHR 0x22 # s @ [CHR 0x22]"

definition render_lib :: "(string, string, bool) template_lib" where
  "render_lib = \<lparr>template_Parse = (\<lambda>s. if s = ''{{'' then Inl (ExternalError ''unclosed action'') else Inr s),
     template_Execute = (\<lambda>t d. Inr (render_JobName d t)),
     json_Marshal = (\<lambda>v. if v = JSlice [JString ''{{.JobName}}'']
                            then Inr (''['' @ quoted ''{{.JobName}}'' @ '']'')
                            else Inr ''[true]''),
     json_Unmarshal_any = (\<lambda>s. if s = ''[true]'' \<or> s = ''['' @ quoted ''backup'' @ '']''
                                then None else Some (ExternalError ''invalid character'')),
     buildTemplateData = (\<lambda>c. ''backup'')\<rparr>"

text \<open>
  A standard library in which no file exists, no text is a JSON list of strings (so that
  names are split at commas) and trimming changes nothing; a registry holding one
  inactive definition of type \<open>error\<close>.
\<close>

definition comma_stdlib :: stdlib where
  "comma_stdlib = \<lparr>os_Getenv = (\<lambda>k. []), os_Stat_IsNotExist = (\<lambda>p. True),
     os_ReadFile = (\<lambda>p. Inl (ExternalError ''no such file'')),
     json_Unmarshal_WebhooksFile = (\<lambda>s. Inl (ExternalError ''unexpected end of JSON input'')),
     time_ParseDuration = (\<lambda>s. Inl (ExternalError ''time: invalid duration'')),
     sort_Slice = (\<lambda>less xs. xs),
     json_Unmarshal_strings = (\<lambda>s. Inl (ExternalError ''invalid character'')),
     strings_TrimSpace = (\<lambda>s. s)\<rparr>"

definition pager_definition :: WebhookDefinition where
  "pager_definition = \<lparr>Name = ''pager'', Type = ''error'', Active = False, Priority = 5,
     URL = ''http://hooks.example/p'', Method = ''POST'', Headers = Some [], Body = JNil,
     OnlyOnError = False, Timeout = 10, Retry = None\<rparr>"

definition pager_registry :: WebhookRegistry where
  "pager_registry = Register NewWebhookRegistry pager_definition"

text \<open>
  A config file that exists and decodes to the given definitions, on a system where no
  duration parses and the sort is Go's; files of thirteen, two and two entries.
\<close>

definition file_stdlib :: "WebhookDefinition list \<Rightarrow> stdlib" where
  "file_stdlib ds = \<lparr>os_Getenv = (\<lambda>k. []), os_Stat_IsNotExist = (\<lambda>p. False),
     os_ReadFile = (\<lambda>p. Inr ''{...}''),
     json_Unmarshal_WebhooksFile = (\<lambda>s. Inr ds),
     time_ParseDuration = (\<lambda>s. Inl (ExternalError ''time: invalid duration'')),
     sort_Slice = go_sort_Slice,
     json_Unmarshal_strings = (\<lambda>s. Inl (ExternalError ''invalid character'')),
     strings_TrimSpace = (\<lambda>s. s)\<rparr>"

definition hook :: "string \<Rightarrow> int \<Rightarrow> WebhookDefinition" where
  "hook n p = \<lparr>Name = n, Type = ''all'', Active = True, Priority = p,
     URL = ''http://hooks.example/'' @ n, Method = ''POST'', Headers = Some [], Body = JNil,
     OnlyOnError = False, Timeout = 10, Retry = None\<rparr>"

definition thirteen_hooks :: "WebhookDefinition list" where
  "thirteen_hooks = hook ''w0'' 1 # map (\<lambda>n. hook n 0)
     [''w1'', ''w2'', ''w3'', ''w4'', ''w5'', ''w6'', ''w7'', ''w8'', ''w9'', ''w10'', ''w11'',
      ''w12'']"

definition hasty_definition :: WebhookDefinition where
  "hasty_definition = (hook ''hasty'' 7)\<lparr>Retry := Some \<lparr>Count = 1, Backoff = ''soon''\<rparr>\<rparr>"

definition good_file :: "WebhookDefinition list" where
  "good_file = [hasty_definition, pager_definition]"

definition bad_file :: "WebhookDefinition list" where
  "bad_file = [pager_definition, (hook ''nourl'' 0)\<lparr>URL := []\<rparr>]"


text \<open>
  A file with one definition more than \<open>thirteen_hooks\<close>: sorting it reaches
  \<open>breakPatterns_func\<close>.
\<close>

definition fourteen_hooks :: "WebhookDefinition list" where
  "fourteen_hooks = thirteen_hooks @ [hook ''w13'' 0]"

section \<open>Verified properties\<close>

subsection \<open>Global dispatcher\<close>

text \<open>
  Claim C1. \<open>Webhook.Run\<close> starts a render-and-deliver task if and only if the definition
  is active, its type selects the outcome (\<open>all\<close>, or \<open>error\<close> on a failed job, or
  \<open>info\<close> on a job that did not fail), and it is not the case that \<open>onlyOnError\<close> is
  set while the job did not fail. At most one task is started, for this webhook and the
  stopped context. Setting \<open>onlyOnError\<close> can only suppress a send: whenever the
  webhook with the flag set sends, the same webhook with the flag cleared sends too.
\<close>

theorem Run_spawns_iff:
  "(spawned (Run core w ctx0) \<noteq> []) =
     (active w \<and>
      (webhookType w = WebhookTypeAll
        \<or> (job_failed core ctx0 \<and> webhookType w = WebhookTypeError)
        \<or> (\<not> job_failed core ctx0 \<and> webhookType w = WebhookTypeInfo)) \<and>
      \<not> (onlyOnError w \<and> \<not> job_failed core ctx0))
   \<and> (spawned (Run core w ctx0) = [] \<or>
        spawned (Run core w ctx0) = [Go_sendWebhook w (ctx_after (Run core w ctx0))])
   \<and> (spawned (Run core (w\<lparr>onlyOnError := True\<rparr>) ctx0) \<noteq> [] \<longrightarrow>
        spawned (Run core (w\<lparr>onlyOnError := False\<rparr>) ctx0) \<noteq> [])"
  by (auto simp: Run_def job_failed_def Let_def split: prod.splits)

theorem Run_spawns_iff_witness:
  "spawned (Run (pipeline_of (Some (ExternalError ''exit 1'')))
      (slack_hook\<lparr>onlyOnError := True\<rparr>) False) \<noteq> []
   \<and> spawned (Run (pipeline_of (Some (ExternalError ''exit 1'')))
      (slack_hook\<lparr>onlyOnError := False\<rparr>) False) \<noteq> []"
  using Run_spawns_iff [of "pipeline_of (Some (ExternalError ''exit 1''))" slack_hook False]
  by (simp add: Run_def pipeline_of_def slack_hook_def WebhookTypeAll_def WebhookTypeError_def)

text \<open>
  Claim C3. Both \<open>Webhook.Run\<close> and \<open>PerJobWebhook.Run\<close> return exactly the error that
  \<open>ctx.Next()\<close> produced, whatever the definition, the outcome of the job and the tasks
  started: the deliveries run in goroutines whose results \<open>Run\<close> never reads.
\<close>

theorem Run_returns_job_error:
  "returned (Run core w ctx0) = fst (ctx_Next core ctx0)
   \<and> returned (PerJob_Run core pw ctx0) = fst (ctx_Next core ctx0)"
  by (simp add: Run_def PerJob_Run_def Let_def split: prod.splits)

subsection \<open>Per-job dispatcher\<close>

lemma fire_webhooks_spawned:
  "snd (fire_webhooks w ctx ds) = map (Go_perjob_sendWebhook w ctx) (filter Active ds)"
  by (induction ds) (auto simp: Let_def split: prod.splits)

text \<open>
  Claim C7. \<open>PerJobWebhook.Run\<close> starts one delivery task for each active definition of
  the error list when the job failed, and for each active definition of the info list
  when it did not fail, in list order; inactive definitions are skipped. Replacing the
  \<open>OnlyOnError\<close> flags of the definitions in any way leaves the started deliveries the
  same.
\<close>

theorem PerJob_Run_spawns:
  "spawned (PerJob_Run core w ctx0) =
     map (Go_perjob_sendWebhook w (ctx_after (PerJob_Run core w ctx0)))
       (filter Active (if job_failed core ctx0 then errorWebhooks w else infoWebhooks w))
   \<and> map task_definition (spawned (PerJob_Run core (with_OnlyOnError f w) ctx0)) =
     map task_definition (spawned (PerJob_Run core w ctx0))"
  by (simp add: PerJob_Run_def job_failed_def Let_def split_beta fire_webhooks_spawned
      with_OnlyOnError_def filter_map o_def)

subsection \<open>Template helper truncate\<close>

text \<open>
  Claim C9, as stated, fails: a string cut to a width of at most 3 keeps no marker.
  \<open>truncate(3, "hello")\<close> is \<open>"hel"\<close>.
\<close>

theorem truncateString_cut_counterexample:
  "3 < int (length ''hello'') \<and> truncateString 3 ''hello'' = Inr ''hel''
   \<and> \<not> hasSuffix ''hel'' ''...''"
  by (simp add: truncateString_def hasSuffix_def)

text \<open>
  Claim C9, amended. \<open>truncateString\<close> returns its input unchanged when the length is at
  most the width. When the length exceeds a width greater than 3, the result is the
  first width - 3 bytes followed by \<open>"..."\<close>: it has exactly the given width and ends
  with the marker. When the length exceeds a width between 0 and 3, the result is the
  first width bytes, without a marker. \<open>truncate(5, "hello world") = "he..."\<close> and
  \<open>truncate(20, "short") = "short"\<close>.
\<close>

theorem truncateString_amended:
  "(int (length s) \<le> maxLen \<longrightarrow> truncateString maxLen s = Inr s)
   \<and> (3 < maxLen \<and> maxLen < int (length s) \<longrightarrow>
        (\<exists>r. truncateString maxLen s = Inr r \<and> int (length r) = maxLen \<and> hasSuffix r ''...''
           \<and> r = take (nat (maxLen - 3)) s @ ''...''))
   \<and> (0 \<le> maxLen \<and> maxLen \<le> 3 \<and> maxLen < int (length s) \<longrightarrow>
        truncateString maxLen s = Inr (take (nat maxLen) s) \<and>
        int (length (take (nat maxLen) s)) = maxLen)
   \<and> truncateString 5 ''hello world'' = Inr ''he...''
   \<and> truncateString 20 ''short'' = Inr ''short''"
  by (auto simp: truncateString_def hasSuffix_def)

theorem truncateString_amended_witness:
  "int (length ''short'') \<le> 20 \<and> truncateString 20 ''short'' = Inr ''short''
   \<and> 3 < (5::int) \<and> 5 < int (length ''hello world'')
   \<and> truncateString 5 ''hello world'' = Inr ''he...'' \<and> hasSuffix ''he...'' ''...''
   \<and> (0::int) \<le> 2 \<and> (2::int) \<le> 3 \<and> 2 < int (length ''hello'')
   \<and> truncateString 2 ''hello'' = Inr ''he''"
  using truncateString_amended [where s = "''short''" and maxLen = 20]
    truncateString_amended [where s = "''hello world''" and maxLen = 5]
    truncateString_amended [where s = "''hello''" and maxLen = 2]
  by (simp add: hasSuffix_def)

subsection \<open>Delivery engine: retries\<close>

lemma sint_of_nat64: "j < 2 ^ 63 \<Longrightarrow> sint (of_nat j :: 64 word) = int j"
  by (simp add: signed_of_nat signed_take_bit_int_eq_self)

lemma requests_made_append [simp]:
  "requests_made (xs @ ys) = requests_made xs + requests_made ys"
  by (simp add: requests_made_def)

lemma requests_made_simps [simp]:
  "requests_made [] = 0"
  "requests_made (Requested r # xs) = Suc (requests_made xs)"
  "requests_made (Logged l # xs) = requests_made xs"
  "requests_made (Slept d # xs) = requests_made xs"
  by (simp_all add: requests_made_def)

lemma loop_unfold:
  assumes j: "j < 2 ^ 63" "int j \<le> sint (retryCount w)" and tr: "requests_made tr = j"
  shows "sendWithRetry_loop http w u hs b (of_nat j) bo le tr =
     (case sendRequest http j w u hs b of
        None \<Rightarrow> Some (None, tr @ (if 0 < j
            then [Logged (Debug_retry_attempt (name w) (of_nat j) (retryCount w) bo), Slept bo]
            else []) @ [Requested (Request (http_method w) u hs b)])
      | Some err \<Rightarrow>
          sendWithRetry_loop http w u hs b (of_nat (Suc j)) (if 0 < j then bo * 2 else bo)
            (Some err)
            (tr @ (if 0 < j
              then [Logged (Debug_retry_attempt (name w) (of_nat j) (retryCount w) bo), Slept bo]
              else []) @ [Requested (Request (http_method w) u hs b)]))"
proof -
  have s: "sint (of_nat j :: 64 word) = int j" by (rule sint_of_nat64) fact
  have a: "(of_nat j :: 64 word) + 1 = of_nat (Suc j)" by simp
  show ?thesis
  proof (cases "j = 0")
    case True
    then show ?thesis
      by (subst sendWithRetry_loop.simps) (use j tr in \<open>simp split: option.splits\<close>)
  next
    case False
    then show ?thesis
      by (subst sendWithRetry_loop.simps)
         (use j tr in \<open>simp add: s Let_def a del: of_nat_Suc split: option.splits\<close>)
  qed
qed

lemma pow2_pred: "0 < j \<Longrightarrow> (x :: 64 word) * 2 ^ (j - 1) * 2 = x * 2 ^ j"
  by (cases j) (simp_all add: mult.assoc)

lemma loop_step_fail:
  assumes j: "j < 2 ^ 63" "int j \<le> sint (retryCount w)"
    and tr: "requests_made tr = j"
    and f: "sendRequest http j w u hs b = Some err"
  shows "sendWithRetry_loop http w u hs b (of_nat j) (retryBackoff w * 2 ^ (j - 1)) le tr =
         sendWithRetry_loop http w u hs b (of_nat (Suc j)) (retryBackoff w * 2 ^ j) (Some err)
           (tr @ attempt_effects w u hs b j)"
proof (cases "0 < j")
  case True
  then show ?thesis
    unfolding loop_unfold [OF j tr] f attempt_effects_def
    by (simp only: option.case if_True pow2_pred)
next
  case False
  then have "j = 0" by simp
  then show ?thesis
    unfolding loop_unfold [OF j tr] f attempt_effects_def by simp
qed

lemma loop_step_ok:
  assumes j: "j < 2 ^ 63" "int j \<le> sint (retryCount w)"
    and tr: "requests_made tr = j"
    and f: "sendRequest http j w u hs b = None"
  shows "sendWithRetry_loop http w u hs b (of_nat j) (retryBackoff w * 2 ^ (j - 1)) le tr =
         Some (None, tr @ attempt_effects w u hs b j)"
  unfolding loop_unfold [OF j tr] f attempt_effects_def by simp

lemma loop_exit:
  assumes "j < 2 ^ 63" "sint (retryCount w) < int j"
  shows "sendWithRetry_loop http w u hs b (of_nat j) bo le tr = Some (le, tr)"
proof -
  have s: "sint (of_nat j :: 64 word) = int j" by (rule sint_of_nat64) fact
  show ?thesis
    by (subst sendWithRetry_loop.simps) (use assms in \<open>simp add: s\<close>)
qed

lemma requests_made_attempt [simp]: "requests_made (attempt_effects w u hs b j) = 1"
  by (simp add: attempt_effects_def)

lemma loop_run:
  assumes k: "k < 2 ^ 63" "int k \<le> sint (retryCount w)" and jk: "j \<le> k"
    and tr: "requests_made tr = j"
    and fails: "\<forall>i. j \<le> i \<and> i < k \<longrightarrow> sendRequest http i w u hs b \<noteq> None"
  shows "sendWithRetry_loop http w u hs b (of_nat j) (retryBackoff w * 2 ^ (j - 1)) le tr =
         (case sendRequest http k w u hs b of
            None \<Rightarrow> Some (None, tr @ concat (map (attempt_effects w u hs b) [j..<Suc k]))
          | Some err \<Rightarrow>
              sendWithRetry_loop http w u hs b (of_nat (Suc k)) (retryBackoff w * 2 ^ k) (Some err)
                (tr @ concat (map (attempt_effects w u hs b) [j..<Suc k])))"
  using jk tr fails
proof (induction "k - j" arbitrary: j tr le)
  case 0
  then have "j = k" by simp
  show ?case
  proof (cases "sendRequest http k w u hs b")
    case None
    show ?thesis
      unfolding \<open>j = k\<close> None using loop_step_ok [OF k _ None] 0 \<open>j = k\<close> by simp
  next
    case (Some err)
    show ?thesis
      unfolding \<open>j = k\<close> Some using loop_step_fail [OF k _ Some] 0 \<open>j = k\<close> by simp
  qed
next
  case (Suc n)
  then have lt: "j < k" by simp
  then obtain err where err: "sendRequest http j w u hs b = Some err"
    using Suc.prems by (cases "sendRequest http j w u hs b") auto
  have j: "j < 2 ^ 63" "int j \<le> sint (retryCount w)" using lt k by simp_all
  have upt: "[j..<Suc k] = j # [Suc j..<Suc k]" using lt by (simp add: upt_conv_Cons)
  have "sendWithRetry_loop http w u hs b (of_nat j) (retryBackoff w * 2 ^ (j - 1)) le tr =
        sendWithRetry_loop http w u hs b (of_nat (Suc j)) (retryBackoff w * 2 ^ (Suc j - 1)) (Some err)
           (tr @ attempt_effects w u hs b j)"
    using loop_step_fail [OF j Suc.prems(2) err] by simp
  also have "\<dots> = (case sendRequest http k w u hs b of
            None \<Rightarrow> Some (None, (tr @ attempt_effects w u hs b j) @ concat (map (attempt_effects w u hs b) [Suc j..<Suc k]))
          | Some err \<Rightarrow>
              sendWithRetry_loop http w u hs b (of_nat (Suc k)) (retryBackoff w * 2 ^ k) (Some err)
                ((tr @ attempt_effects w u hs b j) @ concat (map (attempt_effects w u hs b) [Suc j..<Suc k])))"
    using Suc.hyps Suc.prems lt by (intro Suc.hyps(1)) auto
  finally show ?case by (simp only: upt list.map concat.simps append_assoc)
qed


lemma requests_made_concat_attempts:
  "requests_made (concat (map (attempt_effects w u hs b) [0..<n])) = n"
  by (induction n) simp_all

lemma deliveries_append [simp]: "deliveries (xs @ ys) = deliveries xs @ deliveries ys"
  by (simp add: deliveries_def)

lemma deliveries_attempt:
  "deliveries (attempt_effects w u hs b i) =
     (if 0 < i then [Slept (retryBackoff w * 2 ^ (i - 1))] else [])
       @ [Requested (Request (http_method w) u hs b)]"
  by (simp add: attempt_effects_def deliveries_def)

lemma deliveries_concat_attempts:
  "deliveries (concat (map (attempt_effects w u hs b) [0..<Suc k])) =
     Requested (Request (http_method w) u hs b) #
       concat (map (\<lambda>i. [Slept (retryBackoff w * 2 ^ i),
                          Requested (Request (http_method w) u hs b)]) [0..<k])"
proof (induction k)
  case 0
  show ?case by (simp add: deliveries_attempt)
next
  case (Suc k)
  have "deliveries (concat (map (attempt_effects w u hs b) [0..<Suc (Suc k)])) =
        deliveries (concat (map (attempt_effects w u hs b) [0..<Suc k]))
          @ deliveries (attempt_effects w u hs b (Suc k))"
    by simp
  then show ?case
    unfolding Suc.IH deliveries_attempt by simp
qed

lemma sendWithRetry_run:
  assumes k: "int k \<le> sint (retryCount w)"
    and fails: "\<forall>i<k. sendRequest http i w u hs b \<noteq> None"
  shows "sendWithRetry http w u hs b =
         (case sendRequest http k w u hs b of
            None \<Rightarrow> Some (None, concat (map (attempt_effects w u hs b) [0..<Suc k]))
          | Some err \<Rightarrow>
              sendWithRetry_loop http w u hs b (of_nat (Suc k)) (retryBackoff w * 2 ^ k) (Some err)
                (concat (map (attempt_effects w u hs b) [0..<Suc k])))"
proof -
  have "sint (retryCount w) < 2 ^ 63"
    using sint_lt [of "retryCount w"] by simp
  with k have k63: "k < 2 ^ 63" by simp
  have "sendWithRetry_loop http w u hs b (of_nat 0) (retryBackoff w * 2 ^ (0 - 1)) None [] =
        (case sendRequest http k w u hs b of
            None \<Rightarrow> Some (None, [] @ concat (map (attempt_effects w u hs b) [0..<Suc k]))
          | Some err \<Rightarrow>
              sendWithRetry_loop http w u hs b (of_nat (Suc k)) (retryBackoff w * 2 ^ k) (Some err)
                ([] @ concat (map (attempt_effects w u hs b) [0..<Suc k])))"
    by (rule loop_run [OF k63 k]) (use fails in simp_all)
  then show ?thesis
    by (cases "sendRequest http k w u hs b") (simp_all add: sendWithRetry_def)
qed

text \<open>
  With the largest retry count, \<open>attempt <= w.retryCount\<close> holds for every int and
  \<open>attempt++\<close> wraps around from the largest int to the smallest: when no attempt
  succeeds the loop never ends.
\<close>

lemma sendWithRetry_loop_never_returns:
  assumes max: "sint (retryCount w) = 2 ^ 63 - 1"
    and fails: "\<forall>k. sendRequest http k w u hs b \<noteq> None"
  shows "sendWithRetry_loop http w u hs b attempt backoff lastErr tr = None"
proof (rule ccontr)
  assume "sendWithRetry_loop http w u hs b attempt backoff lastErr tr \<noteq> None"
  then obtain y where y: "sendWithRetry_loop http w u hs b attempt backoff lastErr tr = Some y"
    by auto
  have "\<not> (sint (retryCount w) = 2 ^ 63 - 1 \<and> (\<forall>k. sendRequest http k w u hs b \<noteq> None))"
  proof (rule sendWithRetry_loop.raw_induct
      [where P = "\<lambda>http w u hs b attempt backoff lastErr tr y.
         \<not> (sint (retryCount w) = 2 ^ 63 - 1 \<and> (\<forall>k. sendRequest http k w u hs b \<noteq> None))",
       OF _ y], goal_cases)
    case (1 f http w u hs b attempt backoff lastErr tr y)
    show ?case
    proof
      assume c: "sint (retryCount w) = 2 ^ 63 - 1 \<and> (\<forall>k. sendRequest http k w u hs b \<noteq> None)"
      have "sint attempt < 2 ^ 63" using sint_lt [of attempt] by simp
      then have le: "sint attempt \<le> sint (retryCount w)" using c by simp
      define tr1 where "tr1 = (if 0 < sint attempt
                 then tr @ [Logged (Debug_retry_attempt (name w) attempt (retryCount w) backoff),
                       Slept backoff]
                 else tr)"
      have "sendRequest http (requests_made tr1) w u hs b \<noteq> None" using c by blast
      then obtain err where err: "sendRequest http (requests_made tr1) w u hs b = Some err"
        by auto
      have "f http w u hs b (attempt + 1) (if 0 < sint attempt then backoff * 2 else backoff)
              (Some err) (tr1 @ [Requested (Request (http_method w) u hs b)]) = Some y"
        using 1(2) le err by (simp add: Let_def tr1_def [symmetric])
      from 1(1) [OF this] c show False by simp
    qed
  qed
  then show False using max fails by simp
qed

lemma sendWithRetry_never_returns:
  assumes "sint (retryCount w) = 2 ^ 63 - 1"
    and "\<forall>k. sendRequest http k w u hs b \<noteq> None"
  shows "sendWithRetry http w u hs b = None"
  unfolding sendWithRetry_def using assms by (rule sendWithRetry_loop_never_returns)

text \<open>
  Claim C2, as stated, fails for the largest retry count. The webhook has the retry count
  \<open>9223372036854775807\<close>, which is not negative, and every request is answered with
  status 500, so every attempt fails. \<open>sendWithRetry\<close> does not stop after
  \<open>N + 1\<close> attempts and does not return the last error: it never returns.
\<close>

theorem sendWithRetry_largest_count_counterexample:
  "0 \<le> sint (retryCount (slack_hook\<lparr>retryCount := 9223372036854775807\<rparr>))
   \<and> sint (retryCount (slack_hook\<lparr>retryCount := 9223372036854775807\<rparr>)) = 2 ^ 63 - 1
   \<and> (\<forall>k. sendRequest always500 k (slack_hook\<lparr>retryCount := 9223372036854775807\<rparr>) ''u'' [] None
          = Some (Non2xxStatus 500 ''boom''))
   \<and> sendWithRetry always500 (slack_hook\<lparr>retryCount := 9223372036854775807\<rparr>) ''u'' [] None = None"
proof -
  let ?w = "slack_hook\<lparr>retryCount := 9223372036854775807\<rparr>"
  have m: "sint (retryCount ?w) = 2 ^ 63 - 1" by simp
  have f: "sendRequest always500 k ?w ''u'' [] None = Some (Non2xxStatus 500 ''boom'')" for k
    by (simp add: sendRequest_def always500_def)
  have "sendWithRetry always500 ?w ''u'' [] None = None"
    by (rule sendWithRetry_never_returns [OF m]) (simp add: f)
  with m f show ?thesis by simp
qed

text \<open>
  Claim C2, amended. Let the retry count \<open>N\<close> of the webhook be non-negative. If the
  attempts number 0 to \<open>k - 1\<close> fail and attempt \<open>k \<le> N\<close> succeeds, \<open>sendWithRetry\<close>
  returns nil after exactly \<open>k + 1\<close> requests and makes no further attempt. If all
  attempts up to number \<open>N\<close> fail and \<open>N\<close> is below the largest Go int, it returns the
  error of the last one after exactly \<open>N + 1\<close> requests. In both cases the requests and
  sleeps alternate: a request first, then for each retry a sleep followed by a request,
  so no sleep comes before the first or after the last request; the first sleep lasts
  the configured backoff and every later one twice the one before, computed as
  \<open>backoff *= 2\<close> on int64. If \<open>N\<close> is the largest Go int and every attempt fails,
  \<open>sendWithRetry\<close> never returns.
\<close>

theorem sendWithRetry_attempts:
  assumes nonneg: "0 \<le> sint (retryCount w)"
  shows
  "(int k \<le> sint (retryCount w) \<and> (\<forall>i<k. sendRequest http i w u hs b \<noteq> None)
      \<and> sendRequest http k w u hs b = None \<longrightarrow>
      (\<exists>tr. sendWithRetry http w u hs b = Some (None, tr) \<and> requests_made tr = k + 1 \<and>
         deliveries tr = Requested (Request (http_method w) u hs b) #
           concat (map (\<lambda>i. [Slept (retryBackoff w * 2 ^ i),
                              Requested (Request (http_method w) u hs b)]) [0..<k])))
   \<and> (int N = sint (retryCount w) \<and> sint (retryCount w) < 2 ^ 63 - 1
      \<and> (\<forall>i\<le>N. sendRequest http i w u hs b \<noteq> None) \<longrightarrow>
      (\<exists>tr. sendWithRetry http w u hs b = Some (sendRequest http N w u hs b, tr)
         \<and> requests_made tr = N + 1 \<and>
         deliveries tr = Requested (Request (http_method w) u hs b) #
           concat (map (\<lambda>i. [Slept (retryBackoff w * 2 ^ i),
                              Requested (Request (http_method w) u hs b)]) [0..<N])))
   \<and> (sint (retryCount w) = 2 ^ 63 - 1 \<and> (\<forall>i. sendRequest http i w u hs b \<noteq> None) \<longrightarrow>
      sendWithRetry http w u hs b = None)"
proof (intro conjI impI)
  assume a: "int k \<le> sint (retryCount w) \<and> (\<forall>i<k. sendRequest http i w u hs b \<noteq> None)
      \<and> sendRequest http k w u hs b = None"
  then have "sendWithRetry http w u hs b =
      Some (None, concat (map (attempt_effects w u hs b) [0..<Suc k]))"
    using sendWithRetry_run [of k w http u hs b] by simp
  then show "\<exists>tr. sendWithRetry http w u hs b = Some (None, tr) \<and> requests_made tr = k + 1 \<and>
         deliveries tr = Requested (Request (http_method w) u hs b) #
           concat (map (\<lambda>i. [Slept (retryBackoff w * 2 ^ i),
                              Requested (Request (http_method w) u hs b)]) [0..<k])"
    using requests_made_concat_attempts [of w u hs b "Suc k"]
      deliveries_concat_attempts [of w u hs b k] by simp
next
  assume a: "int N = sint (retryCount w) \<and> sint (retryCount w) < 2 ^ 63 - 1
      \<and> (\<forall>i\<le>N. sendRequest http i w u hs b \<noteq> None)"
  then obtain err where err: "sendRequest http N w u hs b = Some err"
    by (cases "sendRequest http N w u hs b") auto
  have "sendWithRetry http w u hs b =
        sendWithRetry_loop http w u hs b (of_nat (Suc N)) (retryBackoff w * 2 ^ N) (Some err)
          (concat (map (attempt_effects w u hs b) [0..<Suc N]))"
    using sendWithRetry_run [of N w http u hs b] a err by simp
  also have "\<dots> = Some (Some err, concat (map (attempt_effects w u hs b) [0..<Suc N]))"
    by (rule loop_exit) (use a in simp_all)
  finally show "\<exists>tr. sendWithRetry http w u hs b = Some (sendRequest http N w u hs b, tr)
         \<and> requests_made tr = N + 1 \<and>
         deliveries tr = Requested (Request (http_method w) u hs b) #
           concat (map (\<lambda>i. [Slept (retryBackoff w * 2 ^ i),
                              Requested (Request (http_method w) u hs b)]) [0..<N])"
    using requests_made_concat_attempts [of w u hs b "Suc N"]
      deliveries_concat_attempts [of w u hs b N] err by simp
next
  assume "sint (retryCount w) = 2 ^ 63 - 1 \<and> (\<forall>i. sendRequest http i w u hs b \<noteq> None)"
  then show "sendWithRetry http w u hs b = None"
    by (simp add: sendWithRetry_never_returns)
qed

theorem sendWithRetry_attempts_witness:
  "0 \<le> sint (retryCount slack_hook)
   \<and> (\<exists>tr. sendWithRetry always500 slack_hook ''u'' [] None
              = Some (Some (Non2xxStatus 500 ''boom''), tr)
        \<and> requests_made tr = 3
        \<and> deliveries tr = [Requested (Request ''POST'' ''u'' [] None), Slept 1000000000,
             Requested (Request ''POST'' ''u'' [] None), Slept 2000000000,
             Requested (Request ''POST'' ''u'' [] None)])
   \<and> (\<exists>tr. sendWithRetry fail_twice (slack_hook\<lparr>retryCount := 3\<rparr>) ''u'' [] None = Some (None, tr)
        \<and> requests_made tr = 3)
   \<and> 0 \<le> sint (retryCount (slack_hook\<lparr>retryCount := 9223372036854775807\<rparr>))
   \<and> sint (retryCount (slack_hook\<lparr>retryCount := 9223372036854775807\<rparr>)) = 2 ^ 63 - 1
   \<and> (\<forall>i. sendRequest always500 i (slack_hook\<lparr>retryCount := 9223372036854775807\<rparr>) ''u'' []
          None \<noteq> None)
   \<and> sendWithRetry always500 (slack_hook\<lparr>retryCount := 9223372036854775807\<rparr>) ''u'' [] None
       = None"
proof -
  let ?w = "slack_hook\<lparr>retryCount := 9223372036854775807\<rparr>"
  have n: "0 \<le> sint (retryCount slack_hook)" "0 \<le> sint (retryCount (slack_hook\<lparr>retryCount := 3\<rparr>))"
    by (simp_all add: slack_hook_def)
  have up: "[0..<2] = [0, 1]" by (simp add: upt_rec)
  have returns: "0 \<le> sint (retryCount slack_hook)
   \<and> (\<exists>tr. sendWithRetry always500 slack_hook ''u'' [] None
              = Some (Some (Non2xxStatus 500 ''boom''), tr)
        \<and> requests_made tr = 3
        \<and> deliveries tr = [Requested (Request ''POST'' ''u'' [] None), Slept 1000000000,
             Requested (Request ''POST'' ''u'' [] None), Slept 2000000000,
             Requested (Request ''POST'' ''u'' [] None)])
   \<and> (\<exists>tr. sendWithRetry fail_twice (slack_hook\<lparr>retryCount := 3\<rparr>) ''u'' [] None = Some (None, tr)
        \<and> requests_made tr = 3)"
    using sendWithRetry_attempts [OF n(1), of 0 always500 "''u''" "[]" None 2]
      sendWithRetry_attempts [OF n(2), of 2 fail_twice "''u''" "[]" None 0]
    by (auto simp add: slack_hook_def always500_def fail_twice_def sendRequest_def up
        less_Suc_eq le_Suc_eq numeral_2_eq_2 numeral_3_eq_3)
  have n3: "0 \<le> sint (retryCount ?w)" by simp
  have m3: "sint (retryCount ?w) = 2 ^ 63 - 1" by simp
  have f3: "\<forall>i. sendRequest always500 i ?w ''u'' [] None \<noteq> None"
    by (simp add: sendRequest_def always500_def)
  have never: "sendWithRetry always500 ?w ''u'' [] None = None"
    using sendWithRetry_attempts [OF n3, of 0 always500 "''u''" "[]" None 0] m3 f3 by blast
  from returns n3 m3 f3 never show ?thesis by blast
qed

text \<open>
  As long as the product fits into an int64, the sleep before attempt \<open>i + 1\<close> lasts
  the configured backoff times \<open>2 ^ i\<close> as an integer.
\<close>

lemma backoff_doubles_without_overflow:
  fixes b :: Duration
  assumes "- (2 ^ 63) \<le> sint b * 2 ^ i" "sint b * 2 ^ i < 2 ^ 63"
  shows "sint (b * 2 ^ i) = sint b * 2 ^ i"
proof -
  have "b * 2 ^ i = word_of_int (sint b * 2 ^ i)"
    by simp
  then have "sint (b * 2 ^ i) = signed_take_bit 63 (sint b * 2 ^ i)"
    by (simp only: sint_sbintrunc') simp
  also have "\<dots> = sint b * 2 ^ i"
    using assms by (simp add: signed_take_bit_int_eq_self)
  finally show ?thesis .
qed

subsection \<open>Delivery engine: negative retry count\<close>

lemma sendWithRetry_negative:
  "sint (retryCount w) < 0 \<Longrightarrow> sendWithRetry http w u hs b = Some (None, [])"
  unfolding sendWithRetry_def
  by (subst sendWithRetry_loop.simps) simp

text \<open>
  Claim C10. \<open>NewWebhookFromDefinition\<close> takes over \<open>retry.count\<close> as it is, negative or
  not, whenever the backoff is empty or parses. With a negative retry count the loop of
  \<open>sendWithRetry\<close> is never entered: no request is made and nil is returned. When the
  URL, body and headers render, \<open>sendWebhook\<close> then logs the delivery as sent
  successfully, and that log line is all it does.
\<close>

theorem negative_retry_count_sends_nothing:
  "(Retry d = Some r \<and> (Backoff r = [] \<or> (\<exists>dur. ParseDuration (Backoff r) = Inr dur)) \<longrightarrow>
      (\<exists>w. NewWebhookFromDefinition ParseDuration d = Inr w \<and> retryCount w = Count r))
   \<and> (sint (retryCount w) < 0 \<longrightarrow> sendWithRetry http w u hs b = Some (None, []))
   \<and> (sint (retryCount w) < 0
        \<and> executeTemplate lib (url w) (buildTemplateData lib ctx) = Inr u
        \<and> (body w = JNil \<or>
            (\<exists>bs. executeTemplateForBody lib (body w) (buildTemplateData lib ctx) = Inr bs))
        \<and> (\<exists>rendered. render_headers lib (buildTemplateData lib ctx)
              (case headers w of None \<Rightarrow> [] | Some h \<Rightarrow> h) [] = Inr rendered) \<longrightarrow>
       sendWebhook lib http w ctx = Some [Logged (Debug_sent_successfully (name w) u)])"
proof (intro conjI impI)
  assume "Retry d = Some r \<and> (Backoff r = [] \<or> (\<exists>dur. ParseDuration (Backoff r) = Inr dur))"
  then show "\<exists>w. NewWebhookFromDefinition ParseDuration d = Inr w \<and> retryCount w = Count r"
    by (auto simp: NewWebhookFromDefinition_def Let_def)
next
  assume "sint (retryCount w) < 0"
  then show "sendWithRetry http w u hs b = Some (None, [])"
    by (rule sendWithRetry_negative)
next
  assume a: "sint (retryCount w) < 0
        \<and> executeTemplate lib (url w) (buildTemplateData lib ctx) = Inr u
        \<and> (body w = JNil \<or>
            (\<exists>bs. executeTemplateForBody lib (body w) (buildTemplateData lib ctx) = Inr bs))
        \<and> (\<exists>rendered. render_headers lib (buildTemplateData lib ctx)
              (case headers w of None \<Rightarrow> [] | Some h \<Rightarrow> h) [] = Inr rendered)"
  then have "\<And>hs b. sendWithRetry http w u hs b = Some (None, [])"
    by (simp add: sendWithRetry_negative)
  with a show "sendWebhook lib http w ctx = Some [Logged (Debug_sent_successfully (name w) u)]"
    by (auto simp: sendWebhook_def Let_def)
qed

theorem negative_retry_count_sends_nothing_witness:
  "(\<exists>w. NewWebhookFromDefinition no_durations careless_definition = Inr w
        \<and> retryCount w = - 1 \<and> sint (retryCount w) < 0
        \<and> sendWithRetry always500 w ''http://hooks.example/y'' [] None = Some (None, [])
        \<and> sendWebhook plain_lib always500 w False
            = Some [Logged (Debug_sent_successfully ''careless'' ''http://hooks.example/y'')])"
proof -
  obtain w where w: "NewWebhookFromDefinition no_durations careless_definition = Inr w"
    "retryCount w = - 1" "url w = ''http://hooks.example/y''" "body w = JNil" "headers w = None"
    "name w = ''careless''"
    by (simp add: NewWebhookFromDefinition_def careless_definition_def Let_def)
  have neg: "sint (retryCount w) < 0" by (simp add: w)
  show ?thesis
    using negative_retry_count_sends_nothing [of careless_definition
        "\<lparr>Count = - 1, Backoff = ''''\<rparr>" no_durations w always500 "''http://hooks.example/y''"
        "[]" None plain_lib False]
      w neg
    by (auto simp: plain_lib_def executeTemplate_def careless_definition_def)
qed

subsection \<open>Template engine: body rendering\<close>

lemma sendWebhook_body_error:
  "executeTemplate lib (url w) (buildTemplateData lib ctx) = Inr u \<Longrightarrow> body w \<noteq> JNil \<Longrightarrow>
   executeTemplateForBody lib (body w) (buildTemplateData lib ctx) = Inl err \<Longrightarrow>
   sendWebhook lib http w ctx = Some [Logged (Error_body_template (name w) err)]"
  by (simp add: sendWebhook_def Let_def)

text \<open>
  Claim C8. On a plain string body \<open>executeTemplateForBody\<close> returns what
  \<open>executeTemplate\<close> returns for that string: when the string parses as a template
  and the template executes, the result is the output of the execution, and there is an
  error exactly when parsing or execution fails. On an object or array body that
  \<open>json.Marshal\<close> serialises to a text, it parses and executes that text as a
  template and decodes the output as JSON again; the result is the output itself when
  it decodes, and the error of the decoding when it does not. On an object or array body
  there is an error exactly when the serialisation fails (the code has this branch;
  \<open>json.Marshal\<close> does not fail on a value decoded from JSON), the text does not
  parse, the template does not execute, or the output does not decode; a successful
  result is exactly the output of executing the serialised body, and it decodes. An
  error for the body ends the delivery: \<open>sendWebhook\<close> logs it and sends nothing.
\<close>

theorem executeTemplateForBody_cases:
  "executeTemplateForBody lib (JString s) data = executeTemplate lib s data
   \<and> (template_Parse lib s = Inr t \<and> template_Execute lib t data = Inr out \<longrightarrow>
        executeTemplateForBody lib (JString s) data = Inr out)
   \<and> ((\<exists>err. executeTemplateForBody lib (JString s) data = Inl err) =
        ((\<exists>err. template_Parse lib s = Inl err) \<or>
         (\<exists>tmpl err. template_Parse lib s = Inr tmpl \<and> template_Execute lib tmpl data = Inl err)))
   \<and> (is_structured v \<and> json_Marshal lib v = Inr jsonText
        \<and> template_Parse lib jsonText = Inr t' \<and> template_Execute lib t' data = Inr out' \<longrightarrow>
        executeTemplateForBody lib v data =
          (case json_Unmarshal_any lib out' of
             Some err \<Rightarrow> Inl (InvalidJSONResult err)
           | None \<Rightarrow> Inr out'))
   \<and> (is_structured v \<longrightarrow>
        ((\<exists>err. executeTemplateForBody lib v data = Inl err) =
         ((\<exists>err. json_Marshal lib v = Inl err) \<or>
          (\<exists>txt. json_Marshal lib v = Inr txt \<and>
             ((\<exists>err. template_Parse lib txt = Inl err) \<or>
              (\<exists>tmpl err. template_Parse lib txt = Inr tmpl
                  \<and> template_Execute lib tmpl data = Inl err) \<or>
              (\<exists>tmpl result err. template_Parse lib txt = Inr tmpl
                  \<and> template_Execute lib tmpl data = Inr result
                  \<and> json_Unmarshal_any lib result = Some err))))))
   \<and> (is_structured v \<and> executeTemplateForBody lib v data = Inr bytes \<longrightarrow>
        (\<exists>txt tmpl. json_Marshal lib v = Inr txt \<and> template_Parse lib txt = Inr tmpl
            \<and> template_Execute lib tmpl data = Inr bytes
            \<and> json_Unmarshal_any lib bytes = None))
   \<and> (executeTemplate lib (url w) (buildTemplateData lib ctx) = Inr u \<and> body w \<noteq> JNil
        \<and> executeTemplateForBody lib (body w) (buildTemplateData lib ctx) = Inl e \<longrightarrow>
        sendWebhook lib http w ctx = Some [Logged (Error_body_template (name w) e)])"
proof -
  have abort: "sendWebhook lib http w ctx = Some [Logged (Error_body_template (name w) e)]"
    if "executeTemplate lib (url w) (buildTemplateData lib ctx) = Inr u \<and> body w \<noteq> JNil
        \<and> executeTemplateForBody lib (body w) (buildTemplateData lib ctx) = Inl e"
    using that by (simp add: sendWebhook_body_error)
  have str: "executeTemplateForBody lib (JString s) data = executeTemplate lib s data"
    by (simp split: sum.splits)
  have str_ok: "executeTemplateForBody lib (JString s) data = Inr out"
    if "template_Parse lib s = Inr t \<and> template_Execute lib t data = Inr out"
    using that by (simp add: executeTemplate_def)
  have str_iff: "(\<exists>err. executeTemplateForBody lib (JString s) data = Inl err) =
        ((\<exists>err. template_Parse lib s = Inl err) \<or>
         (\<exists>tmpl err. template_Parse lib s = Inr tmpl \<and> template_Execute lib tmpl data = Inl err))"
    unfolding str by (auto simp: executeTemplate_def split: sum.splits)
  have unfold: "executeTemplateForBody lib v data = executeTemplateForBody_structured lib v data"
    if "is_structured v"
    using that by (cases v) simp_all
  have struct: "executeTemplateForBody lib v data =
          (case json_Unmarshal_any lib out' of
             Some err \<Rightarrow> Inl (InvalidJSONResult err)
           | None \<Rightarrow> Inr out')"
    if "is_structured v \<and> json_Marshal lib v = Inr jsonText
        \<and> template_Parse lib jsonText = Inr t' \<and> template_Execute lib t' data = Inr out'"
    using that by (simp add: unfold executeTemplateForBody_structured_def executeTemplate_def)
  have iff: "(\<exists>err. executeTemplateForBody lib v data = Inl err) =
         ((\<exists>err. json_Marshal lib v = Inl err) \<or>
          (\<exists>txt. json_Marshal lib v = Inr txt \<and>
             ((\<exists>err. template_Parse lib txt = Inl err) \<or>
              (\<exists>tmpl err. template_Parse lib txt = Inr tmpl
                  \<and> template_Execute lib tmpl data = Inl err) \<or>
              (\<exists>tmpl result err. template_Parse lib txt = Inr tmpl
                  \<and> template_Execute lib tmpl data = Inr result
                  \<and> json_Unmarshal_any lib result = Some err))))"
    if "is_structured v"
    unfolding unfold [OF that] executeTemplateForBody_structured_def executeTemplate_def
    by (auto split: sum.splits option.splits)
  have ok: "\<exists>txt tmpl. json_Marshal lib v = Inr txt \<and> template_Parse lib txt = Inr tmpl
            \<and> template_Execute lib tmpl data = Inr bytes
            \<and> json_Unmarshal_any lib bytes = None"
    if "is_structured v \<and> executeTemplateForBody lib v data = Inr bytes"
  proof -
    from that have s: "is_structured v" and r: "executeTemplateForBody lib v data = Inr bytes"
      by simp_all
    have "executeTemplateForBody_structured lib v data = Inr bytes"
      using r unfolding unfold [OF s] .
    then show ?thesis
      unfolding executeTemplateForBody_structured_def executeTemplate_def
      by (auto split: sum.splits option.splits)
  qed
  show ?thesis
    using str str_ok str_iff struct iff ok abort by blast
qed


theorem executeTemplateForBody_cases_witness:
  "template_Parse render_lib ''Job {{.JobName}} failed'' = Inr ''Job {{.JobName}} failed''
   \<and> template_Execute render_lib ''Job {{.JobName}} failed'' ''backup'' = Inr ''Job backup failed''
   \<and> executeTemplateForBody render_lib (JString ''Job {{.JobName}} failed'') ''backup''
        = Inr ''Job backup failed''
   \<and> is_structured (JSlice [JString ''{{.JobName}}''])
   \<and> json_Marshal render_lib (JSlice [JString ''{{.JobName}}''])
        = Inr (''['' @ quoted ''{{.JobName}}'' @ '']'')
   \<and> template_Parse render_lib (''['' @ quoted ''{{.JobName}}'' @ '']'')
        = Inr (''['' @ quoted ''{{.JobName}}'' @ '']'')
   \<and> template_Execute render_lib (''['' @ quoted ''{{.JobName}}'' @ '']'') ''backup''
        = Inr (''['' @ quoted ''backup'' @ '']'')
   \<and> executeTemplateForBody render_lib (JSlice [JString ''{{.JobName}}'']) ''backup''
        = Inr (''['' @ quoted ''backup'' @ '']'')
   \<and> template_Execute render_lib (''['' @ quoted ''{{.JobName}}'' @ '']'') (quoted ''x'')
        = Inr (''['' @ quoted (quoted ''x'') @ '']'')
   \<and> executeTemplateForBody render_lib (JSlice [JString ''{{.JobName}}'']) (quoted ''x'')
        = Inl (InvalidJSONResult (ExternalError ''invalid character''))
   \<and> executeTemplate render_lib (url (slack_hook\<lparr>body := JString ''{{''\<rparr>))
          (buildTemplateData render_lib False) = Inr ''http://hooks.example/x''
   \<and> body (slack_hook\<lparr>body := JString ''{{''\<rparr>) \<noteq> JNil
   \<and> executeTemplateForBody render_lib (body (slack_hook\<lparr>body := JString ''{{''\<rparr>))
          (buildTemplateData render_lib False)
        = Inl (TemplateParseError (ExternalError ''unclosed action''))
   \<and> sendWebhook render_lib always500 (slack_hook\<lparr>body := JString ''{{''\<rparr>) False
        = Some [Logged (Error_body_template ''slack''
                  (TemplateParseError (ExternalError ''unclosed action'')))]"
proof -
  let ?s = "''Job {{.JobName}} failed''"
  let ?v = "JSlice [JString ''{{.JobName}}'']"
  let ?txt = "''['' @ quoted ''{{.JobName}}'' @ '']''"
  let ?w = "slack_hook\<lparr>body := JString ''{{''\<rparr>"
  have p1: "template_Parse render_lib ?s = Inr ?s" by (simp add: render_lib_def)
  have e1: "template_Execute render_lib ?s ''backup'' = Inr ''Job backup failed''"
    by (simp add: render_lib_def)
  have st: "is_structured ?v" by simp
  have m: "json_Marshal render_lib ?v = Inr ?txt" by (simp add: render_lib_def)
  have p2: "template_Parse render_lib ?txt = Inr ?txt" by (simp add: render_lib_def quoted_def)
  have e2: "template_Execute render_lib ?txt ''backup'' = Inr (''['' @ quoted ''backup'' @ '']'')"
    by (simp add: render_lib_def quoted_def)
  have e3: "template_Execute render_lib ?txt (quoted ''x'') = Inr (''['' @ quoted (quoted ''x'') @ '']'')"
    by (simp add: render_lib_def quoted_def)
  have u1: "json_Unmarshal_any render_lib (''['' @ quoted ''backup'' @ '']'') = None"
    by (simp add: render_lib_def)
  have u2: "json_Unmarshal_any render_lib (''['' @ quoted (quoted ''x'') @ '']'')
      = Some (ExternalError ''invalid character'')"
    by (simp add: render_lib_def quoted_def)
  have url: "executeTemplate render_lib (url ?w) (buildTemplateData render_lib False)
      = Inr ''http://hooks.example/x''"
    by (simp add: executeTemplate_def render_lib_def slack_hook_def)
  have b: "body ?w \<noteq> JNil" by simp
  have be: "executeTemplateForBody render_lib (body ?w) (buildTemplateData render_lib False)
      = Inl (TemplateParseError (ExternalError ''unclosed action''))"
    by (simp add: executeTemplate_def render_lib_def)
  note good = executeTemplateForBody_cases [of render_lib ?s "''backup''" ?s "''Job backup failed''"
      ?v ?txt ?txt "''['' @ quoted ''backup'' @ '']''" "''['' @ quoted ''backup'' @ '']''" ?w False
      "''http://hooks.example/x''" "TemplateParseError (ExternalError ''unclosed action'')"
      always500]
  note bad = executeTemplateForBody_cases [of render_lib ?s "quoted ''x''" ?s "''x''"
      ?v ?txt ?txt "''['' @ quoted (quoted ''x'') @ '']''"]
  have r1: "executeTemplateForBody render_lib (JString ?s) ''backup'' = Inr ''Job backup failed''"
    using good p1 e1 by blast
  have r2: "executeTemplateForBody render_lib ?v ''backup'' = Inr (''['' @ quoted ''backup'' @ '']'')"
    using good st m p2 e2 u1 by simp
  have r3: "executeTemplateForBody render_lib ?v (quoted ''x'')
      = Inl (InvalidJSONResult (ExternalError ''invalid character''))"
    using bad st m p2 e3 u2 by simp
  have r4: "sendWebhook render_lib always500 ?w False
        = Some [Logged (Error_body_template ''slack''
                  (TemplateParseError (ExternalError ''unclosed action'')))]"
    using good url b be by (simp add: slack_hook_def)
  from p1 e1 r1 st m p2 e2 r2 e3 r3 url b be r4 show ?thesis by blast
qed

subsection \<open>Per-job dispatcher: construction\<close>

lemma collect_error_webhooks_snd:
  "snd (collect_error_webhooks reg ns) =
     (case find (bad_error_reference reg) ns of
        None \<Rightarrow> Inr (map (\<lambda>n. the (Get reg n)) ns)
      | Some n \<Rightarrow> Inl (error_reference_error reg n))"
  by (induction ns)
     (auto simp: bad_error_reference_def error_reference_error_def Let_def
           split: option.splits prod.splits sum.splits)

lemma collect_info_webhooks_snd:
  "snd (collect_info_webhooks reg ns) =
     (case find (bad_info_reference reg) ns of
        None \<Rightarrow> Inr (map (\<lambda>n. the (Get reg n)) ns)
      | Some n \<Rightarrow> Inl (info_reference_error reg n))"
  by (induction ns)
     (auto simp: bad_info_reference_def info_reference_error_def Let_def
           split: option.splits prod.splits sum.splits)

lemma collect_error_webhooks_fst:
  "find (bad_error_reference reg) ns = None \<Longrightarrow>
     fst (collect_error_webhooks reg ns) = inactive_notices reg ns"
  by (induction ns)
     (auto simp: bad_error_reference_def inactive_notices_def Let_def
           split: option.splits prod.splits if_splits)

lemma collect_info_webhooks_fst:
  "find (bad_info_reference reg) ns = None \<Longrightarrow>
     fst (collect_info_webhooks reg ns) = inactive_notices reg ns"
  by (induction ns)
     (auto simp: bad_info_reference_def inactive_notices_def Let_def
           split: option.splits prod.splits if_splits)

lemma find_None_iff_Bex: "(find P xs = None) = (\<not> (\<exists>x\<in>set xs. P x))"
  by (auto simp add: find_None_iff)

lemma find_Some_holds: "find P xs = Some x \<Longrightarrow> x \<in> set xs \<and> P x"
  by (induction xs) (auto split: if_splits)

lemma parseWebhookNames_empty: "parseWebhookNames lib [] = []"
  by (simp add: parseWebhookNames_def)

lemma NewWebhookFromConfig_snd:
  "snd (NewWebhookFromConfig lib c reg) =
     (case find (bad_error_reference reg) (errorNames_of lib c) of
        Some n \<Rightarrow> Inl (error_reference_error reg n)
      | None \<Rightarrow>
          (case find (bad_info_reference reg) (infoNames_of lib c) of
             Some n \<Rightarrow> Inl (info_reference_error reg n)
           | None \<Rightarrow>
               Inr (if errorNames_of lib c = [] \<and> infoNames_of lib c = [] then None
                    else Some \<lparr>errorWebhooks = map (\<lambda>n. the (Get reg n)) (errorNames_of lib c),
                               infoWebhooks = map (\<lambda>n. the (Get reg n)) (infoNames_of lib c)\<rparr>)))"
proof (cases "IsEmpty c")
  case True
  then show ?thesis
    by (simp add: NewWebhookFromConfig_def IsEmpty_def errorNames_of_def infoNames_of_def
        parseWebhookNames_empty)
next
  case False
  show ?thesis
  proof (cases "errorNames_of lib c = [] \<and> infoNames_of lib c = []")
    case True
    with False show ?thesis
      by (simp add: NewWebhookFromConfig_def errorNames_of_def infoNames_of_def)
  next
    case ne: False
    have e: "collect_error_webhooks reg (errorNames_of lib c) =
          (fst (collect_error_webhooks reg (errorNames_of lib c)),
           snd (collect_error_webhooks reg (errorNames_of lib c)))" by simp
    have i: "collect_info_webhooks reg (infoNames_of lib c) =
          (fst (collect_info_webhooks reg (infoNames_of lib c)),
           snd (collect_info_webhooks reg (infoNames_of lib c)))" by simp
    from False ne show ?thesis
      unfolding NewWebhookFromConfig_def Let_def
      apply (simp add: errorNames_of_def [symmetric] infoNames_of_def [symmetric])
      apply (subst e, subst i)
      apply (simp only: collect_error_webhooks_snd collect_info_webhooks_snd)
      apply (auto split: option.splits)
      done
  qed
qed


lemma NewWebhookFromConfig_fst:
  assumes "find (bad_error_reference reg) (errorNames_of lib c) = None"
    and "find (bad_info_reference reg) (infoNames_of lib c) = None"
  shows "fst (NewWebhookFromConfig lib c reg) =
     inactive_notices reg (errorNames_of lib c) @ inactive_notices reg (infoNames_of lib c)"
proof (cases "IsEmpty c \<or> (errorNames_of lib c = [] \<and> infoNames_of lib c = [])")
  case True
  then show ?thesis
    by (auto simp: NewWebhookFromConfig_def IsEmpty_def errorNames_of_def infoNames_of_def
        parseWebhookNames_empty inactive_notices_def)
next
  case False
  have e: "collect_error_webhooks reg (errorNames_of lib c) =
        (inactive_notices reg (errorNames_of lib c),
         Inr (map (\<lambda>n. the (Get reg n)) (errorNames_of lib c)))"
    using collect_error_webhooks_fst [OF assms(1)] collect_error_webhooks_snd [of reg "errorNames_of lib c"]
      assms(1) by (simp add: prod_eq_iff)
  have i: "collect_info_webhooks reg (infoNames_of lib c) =
        (inactive_notices reg (infoNames_of lib c),
         Inr (map (\<lambda>n. the (Get reg n)) (infoNames_of lib c)))"
    using collect_info_webhooks_fst [OF assms(2)] collect_info_webhooks_snd [of reg "infoNames_of lib c"]
      assms(2) by (simp add: prod_eq_iff)
  from False show ?thesis
    unfolding NewWebhookFromConfig_def Let_def
    by (simp add: errorNames_of_def [symmetric] infoNames_of_def [symmetric] e i
        inactive_notices_def)
qed

text \<open>
  Claim C6. \<open>NewWebhookFromConfig\<close> fails if and only if some name of
  \<open>webhook-error-names\<close> is unknown to the registry or names a definition whose type is
  neither \<open>error\<close> nor \<open>all\<close>, or some name of \<open>webhook-info-names\<close> is unknown or
  names a definition whose type is neither \<open>info\<close> nor \<open>all\<close>. The error reported is
  that of the first such name, the error list first. Otherwise the construction
  succeeds, with the definitions in the order of the names, whether they are active or
  not; each inactive one is logged as a notice and nothing else happens to it.
\<close>

theorem NewWebhookFromConfig_references:
  "((\<exists>err. snd (NewWebhookFromConfig lib c reg) = Inl err) =
      ((\<exists>n\<in>set (errorNames_of lib c). bad_error_reference reg n)
        \<or> (\<exists>n\<in>set (infoNames_of lib c). bad_info_reference reg n)))
   \<and> (find (bad_error_reference reg) (errorNames_of lib c) = Some n \<longrightarrow>
        snd (NewWebhookFromConfig lib c reg) = Inl (error_reference_error reg n))
   \<and> (find (bad_error_reference reg) (errorNames_of lib c) = None
        \<and> find (bad_info_reference reg) (infoNames_of lib c) = Some n \<longrightarrow>
        snd (NewWebhookFromConfig lib c reg) = Inl (info_reference_error reg n))
   \<and> (\<not> (\<exists>n\<in>set (errorNames_of lib c). bad_error_reference reg n)
        \<and> \<not> (\<exists>n\<in>set (infoNames_of lib c). bad_info_reference reg n) \<longrightarrow>
        NewWebhookFromConfig lib c reg =
          (inactive_notices reg (errorNames_of lib c) @ inactive_notices reg (infoNames_of lib c),
           Inr (if errorNames_of lib c = [] \<and> infoNames_of lib c = [] then None
                else Some \<lparr>errorWebhooks = map (\<lambda>n. the (Get reg n)) (errorNames_of lib c),
                           infoWebhooks = map (\<lambda>n. the (Get reg n)) (infoNames_of lib c)\<rparr>)))"
proof (intro conjI impI)
  show "(\<exists>err. snd (NewWebhookFromConfig lib c reg) = Inl err) =
      ((\<exists>n\<in>set (errorNames_of lib c). bad_error_reference reg n)
        \<or> (\<exists>n\<in>set (infoNames_of lib c). bad_info_reference reg n))"
  proof (cases "find (bad_error_reference reg) (errorNames_of lib c)")
    case (Some n)
    then show ?thesis
      using find_Some_holds [OF Some] by (auto simp: NewWebhookFromConfig_snd)
  next
    case None
    show ?thesis
    proof (cases "find (bad_info_reference reg) (infoNames_of lib c)")
      case (Some n)
      then show ?thesis
        using find_Some_holds [OF Some] None by (auto simp: NewWebhookFromConfig_snd)
    next
      case n2: None
      have ok: "\<exists>r. snd (NewWebhookFromConfig lib c reg) = Inr r"
        using None n2 by (simp add: NewWebhookFromConfig_snd)
      have "\<not> (\<exists>n\<in>set (errorNames_of lib c). bad_error_reference reg n)"
        "\<not> (\<exists>n\<in>set (infoNames_of lib c). bad_info_reference reg n)"
        using None n2 find_None_iff_Bex [of "bad_error_reference reg" "errorNames_of lib c"]
          find_None_iff_Bex [of "bad_info_reference reg" "infoNames_of lib c"] by blast+
      with ok show ?thesis by auto
    qed
  qed
next
  assume "find (bad_error_reference reg) (errorNames_of lib c) = Some n"
  then show "snd (NewWebhookFromConfig lib c reg) = Inl (error_reference_error reg n)"
    by (simp add: NewWebhookFromConfig_snd)
next
  assume "find (bad_error_reference reg) (errorNames_of lib c) = None
        \<and> find (bad_info_reference reg) (infoNames_of lib c) = Some n"
  then show "snd (NewWebhookFromConfig lib c reg) = Inl (info_reference_error reg n)"
    by (simp add: NewWebhookFromConfig_snd)
next
  assume "\<not> (\<exists>n\<in>set (errorNames_of lib c). bad_error_reference reg n)
        \<and> \<not> (\<exists>n\<in>set (infoNames_of lib c). bad_info_reference reg n)"
  then have n: "find (bad_error_reference reg) (errorNames_of lib c) = None"
    "find (bad_info_reference reg) (infoNames_of lib c) = None"
    by (simp_all add: find_None_iff_Bex)
  show "NewWebhookFromConfig lib c reg =
          (inactive_notices reg (errorNames_of lib c) @ inactive_notices reg (infoNames_of lib c),
           Inr (if errorNames_of lib c = [] \<and> infoNames_of lib c = [] then None
                else Some \<lparr>errorWebhooks = map (\<lambda>n. the (Get reg n)) (errorNames_of lib c),
                           infoWebhooks = map (\<lambda>n. the (Get reg n)) (infoNames_of lib c)\<rparr>))"
    using NewWebhookFromConfig_fst [OF n] NewWebhookFromConfig_snd [of lib c reg] n
    by (simp add: prod_eq_iff)
qed

lemma names_pager_ghost:
  "parseWebhookNames comma_stdlib ''pager,ghost'' = [''pager'', ''ghost'']"
  "parseWebhookNames comma_stdlib ''pager'' = [''pager'']"
  "parseWebhookNames comma_stdlib [] = []"
  by (simp_all add: parseWebhookNames_def comma_stdlib_def)

theorem NewWebhookFromConfig_references_witness:
  "NewWebhookFromConfig comma_stdlib \<lparr>WebhookErrorNames = ''pager'', WebhookInfoNames = []\<rparr>
      pager_registry
     = ([Notice_inactive ''pager''],
        Inr (Some \<lparr>errorWebhooks = [pager_definition], infoWebhooks = []\<rparr>))
   \<and> snd (NewWebhookFromConfig comma_stdlib
        \<lparr>WebhookErrorNames = ''pager,ghost'', WebhookInfoNames = []\<rparr> pager_registry)
     = Inl (UnknownErrorWebhook ''ghost'')
   \<and> snd (NewWebhookFromConfig comma_stdlib
        \<lparr>WebhookErrorNames = [], WebhookInfoNames = ''pager''\<rparr> pager_registry)
     = Inl (WrongTypeForInfoNames ''pager'' ''error'')"
proof -
  have g: "Get pager_registry ''pager'' = Some pager_definition"
    "Get pager_registry ''ghost'' = None"
    by (simp_all add: Get_def pager_registry_def Register_def NewWebhookRegistry_def
        pager_definition_def)
  have t: "Type pager_definition = ''error''" "\<not> Active pager_definition"
    by (simp_all add: pager_definition_def)
  show ?thesis
    using NewWebhookFromConfig_references [of comma_stdlib
        "\<lparr>WebhookErrorNames = ''pager'', WebhookInfoNames = []\<rparr>" pager_registry "''pager''"]
      NewWebhookFromConfig_references [of comma_stdlib
        "\<lparr>WebhookErrorNames = ''pager,ghost'', WebhookInfoNames = []\<rparr>" pager_registry "''ghost''"]
      NewWebhookFromConfig_references [of comma_stdlib
        "\<lparr>WebhookErrorNames = [], WebhookInfoNames = ''pager''\<rparr>" pager_registry "''pager''"]
    by (simp add: errorNames_of_def infoNames_of_def names_pager_ghost g t
        bad_error_reference_def bad_info_reference_def error_reference_error_def
        info_reference_error_def inactive_notices_def WebhookTypeError_def WebhookTypeAll_def
        WebhookTypeInfo_def)
qed

subsection \<open>The sort returns a sorted permutation\<close>

text \<open>
  The transcription of \<open>sort.Slice\<close> is verified here for a comparison \<open>lessf\<close> of
  integer keys, \<open>lessf x y = (f x < f y)\<close>: whatever the length of the slice, the
  result is a permutation of the input whose keys ascend. Every function of the sort is
  shown to permute the range it is given and to leave the rest of the slice alone.
\<close>

text \<open>
  Swapping two elements inside a range changes nothing outside it and permutes the slice.
\<close>

lemma frame_refl [simp]: "frame data data a b"
  by (simp add: frame_def)

lemma frame_trans: "frame d d' a b \<Longrightarrow> frame d' d'' a b \<Longrightarrow> frame d d'' a b"
  by (auto simp: frame_def inb_def)

lemma frame_mono: "frame d d' a' b' \<Longrightarrow> a \<le> a' \<Longrightarrow> b' \<le> b \<Longrightarrow> frame d d' a b"
  by (auto simp: frame_def)

lemma frame_length: "frame d d' a b \<Longrightarrow> length d' = length d"
  by (simp add: frame_def)

lemma frame_mset: "frame d d' a b \<Longrightarrow> mset d' = mset d"
  by (simp add: frame_def)

lemma frame_inb: "frame d d' a b \<Longrightarrow> inb d' i = inb d i"
  by (simp add: frame_def inb_def)

lemma frame_outside: "frame d d' a b \<Longrightarrow> inb d i \<Longrightarrow> i < a \<or> b \<le> i \<Longrightarrow> d' ! nat i = d ! nat i"
  by (simp add: frame_def)

lemma length_Swap [simp]: "length (Swap d i j) = length d"
  by (simp add: Swap_def)

lemma Swap_nth:
  "inb d i \<Longrightarrow> inb d j \<Longrightarrow> inb d k \<Longrightarrow>
   Swap d i j ! nat k = (if k = j then d ! nat i else if k = i then d ! nat j else d ! nat k)"
  by (auto simp: Swap_def inb_def nth_list_update)

lemma Swap_frame:
  assumes "inb d i" "inb d j" "a \<le> i" "i < b" "a \<le> j" "j < b"
  shows "frame d (Swap d i j) a b"
proof -
  have "mset (Swap d i j) = mset d"
  proof -
    have "nat i < length d" "nat j < length d" using assms(1,2) by (auto simp: inb_def)
    then show ?thesis using mset_swap [of "nat j" d "nat i"] by (simp add: Swap_def)
  qed
  moreover have "Swap d i j ! nat k = d ! nat k" if "inb d k" "k < a \<or> b \<le> k" for k
    using that assms by (subst Swap_nth) auto
  ultimately show ?thesis by (simp add: frame_def)
qed

lemma frame_range_mset:
  assumes fr: "frame d d' a b" and a: "0 \<le> a" and ab: "a \<le> b" and b: "b \<le> int (length d)"
  shows "mset (take (nat b - nat a) (drop (nat a) d')) = mset (take (nat b - nat a) (drop (nat a) d))"
proof -
  let ?A = "nat a" and ?B = "nat b"
  have len: "length d' = length d" using fr by (rule frame_length)
  have AB: "?A \<le> ?B" "?B \<le> length d" using a ab b by auto
  have split: "xs = take ?A xs @ take (?B - ?A) (drop ?A xs) @ drop ?B xs" for xs :: "'a list"
    using AB(1) by (metis append_take_drop_id drop_drop le_add_diff_inverse2 add.commute)
  have t: "take ?A d' = take ?A d"
  proof (rule nth_equalityI)
    show "length (take ?A d') = length (take ?A d)" by (simp add: len)
    fix i assume "i < length (take ?A d')"
    then have i: "i < ?A" "i < length d" by (simp_all add: len)
    then have "d' ! nat (int i) = d ! nat (int i)"
      by (intro frame_outside [OF fr]) (auto simp: inb_def)
    with i show "take ?A d' ! i = take ?A d ! i" by simp
  qed
  have dr: "drop ?B d' = drop ?B d"
  proof (rule nth_equalityI)
    show "length (drop ?B d') = length (drop ?B d)" by (simp add: len)
    fix i assume "i < length (drop ?B d')"
    then have i: "?B + i < length d" by (simp add: len)
    have n: "nat (b + int i) = ?B + i" using a ab by (simp add: nat_add_distrib)
    have "d' ! nat (b + int i) = d ! nat (b + int i)"
      using a ab i by (intro frame_outside [OF fr]) (auto simp: inb_def)
    with i show "drop ?B d' ! i = drop ?B d ! i" by (simp add: len n)
  qed
  have "mset d' = mset d" using fr by (rule frame_mset)
  then have "mset (take ?A d' @ take (?B - ?A) (drop ?A d') @ drop ?B d') =
             mset (take ?A d @ take (?B - ?A) (drop ?A d) @ drop ?B d)"
    using split [of d'] split [of d] by simp
  then show ?thesis by (simp add: t dr)
qed

lemma range_set:
  assumes a: "0 \<le> a" and ab: "a \<le> b" and b: "b \<le> int (length d)"
  shows "set (take (nat b - nat a) (drop (nat a) d)) = {d ! nat i | i. a \<le> i \<and> i < b}"
proof -
  have "set (take (nat b - nat a) (drop (nat a) d)) =
        {take (nat b - nat a) (drop (nat a) d) ! k | k. k < nat b - nat a}"
    using b ab a by (auto simp: set_conv_nth)
  also have "\<dots> = {d ! (nat a + k) | k. k < nat b - nat a}"
  proof -
    have "take (nat b - nat a) (drop (nat a) d) ! k = d ! (nat a + k)" if "k < nat b - nat a" for k
      using that b by simp
    then show ?thesis by (metis (no_types, lifting))
  qed
  also have "\<dots> = {d ! nat i | i. a \<le> i \<and> i < b}"
  proof (intro set_eqI iffI; clarify)
    fix k assume "k < nat b - nat a"
    then show "\<exists>i. d ! (nat a + k) = d ! nat i \<and> a \<le> i \<and> i < b"
      using a by (intro exI [of _ "a + int k"]) (auto simp: nat_add_distrib)
  next
    fix i assume "a \<le> i" "i < b"
    then show "\<exists>k. d ! nat i = d ! (nat a + k) \<and> k < nat b - nat a"
      using a by (intro exI [of _ "nat i - nat a"]) auto
  qed
  finally show ?thesis .
qed

lemma frame_range:
  assumes fr: "frame d d' a b" and a: "0 \<le> a" and b: "b \<le> int (length d)"
    and P: "\<forall>i. a \<le> i \<and> i < b \<longrightarrow> P (d ! nat i)" and k: "a \<le> k" "k < b"
  shows "P (d' ! nat k)"
proof -
  have ab: "a \<le> b" using k by simp
  have len: "length d' = length d" using fr by (rule frame_length)
  have "set (take (nat b - nat a) (drop (nat a) d')) = set (take (nat b - nat a) (drop (nat a) d))"
    using frame_range_mset [OF fr a ab b] by (rule mset_eq_setD)
  then have "{d' ! nat i | i. a \<le> i \<and> i < b} = {d ! nat i | i. a \<le> i \<and> i < b}"
    using range_set [OF a ab b] range_set [OF a ab, of d'] b by (simp add: len)
  moreover have "d' ! nat k \<in> {d' ! nat i | i. a \<le> i \<and> i < b}" using k by blast
  ultimately obtain i where "d' ! nat k = d ! nat i" "a \<le> i" "i < b" by blast
  with P show ?thesis by simp
qed

text \<open>
  \<open>insertionSort_func\<close> sorts its range: the inner loop moves the element at
  \<open>j\<close> down to its place among the sorted elements before it.
\<close>

lemma insertion_shift_spec:
  fixes f :: "'a \<Rightarrow> int"
  assumes lessf: "\<And>x y. lessf x y = (f x < f y)" and a: "0 \<le> a"
  shows "a \<le> j \<Longrightarrow> j \<le> J \<Longrightarrow> J < int (length d) \<Longrightarrow>
    (\<forall>i k. a \<le> i \<and> i \<le> k \<and> k \<le> J \<and> i \<noteq> j \<and> k \<noteq> j \<longrightarrow> f (d ! nat i) \<le> f (d ! nat k)) \<Longrightarrow>
    (\<forall>k. j < k \<and> k \<le> J \<longrightarrow> f (d ! nat j) \<le> f (d ! nat k)) \<Longrightarrow>
    frame d (insertion_shift lessf d a j) a (J + 1) \<and>
    sorted_range f (insertion_shift lessf d a j) a (J + 1)"
proof (induction "nat (j - a)" arbitrary: d j)
  case 0
  then have ja: "j = a" by simp
  have r: "insertion_shift lessf d a j = d"
    by (subst insertion_shift.simps) (simp add: ja)
  have "f (d ! nat i) \<le> f (d ! nat k)" if "a \<le> i" "i \<le> k" "k < J + 1" for i k
    using that 0(5,6) ja by (cases "i = j"; cases "k = j") auto
  then show ?case by (simp add: r sorted_range_def)
next
  case (Suc n)
  then have ja: "a < j" by simp
  show ?case
  proof (cases "f (d ! nat j) < f (d ! nat (j - 1))")
    case False
    have r: "insertion_shift lessf d a j = d"
      by (subst insertion_shift.simps) (simp add: Less_def lessf False)
    have "f (d ! nat i) \<le> f (d ! nat k)" if "a \<le> i" "i \<le> k" "k < J + 1" for i k
    proof (cases "i = j")
      case True
      then show ?thesis using that Suc.prems(5) by (cases "k = j") auto
    next
      case ij: False
      show ?thesis
      proof (cases "k = j")
        case True
        have "f (d ! nat i) \<le> f (d ! nat (j - 1))"
          using that ij True Suc.prems(4) [rule_format, of i "j - 1"] Suc.prems(2) by auto
        then show ?thesis using False True by simp
      next
        case False
        then show ?thesis using that ij Suc.prems(4) by auto
      qed
    qed
    then show ?thesis by (simp add: r sorted_range_def)
  next
    case True
    let ?d = "Swap d j (j - 1)"
    have r: "insertion_shift lessf d a j = insertion_shift lessf ?d a (j - 1)"
      by (subst insertion_shift.simps) (simp add: Less_def lessf True ja)
    have inb: "inb d j" "inb d (j - 1)"
      using ja a Suc.prems by (auto simp: inb_def)
    have nth: "?d ! nat k = (if k = j - 1 then d ! nat j else if k = j then d ! nat (j - 1) else d ! nat k)"
      if "a \<le> k" "k \<le> J" for k
      using that a Suc.prems(3) by (subst Swap_nth [OF inb]) (auto simp: inb_def)
    have fr: "frame d ?d a (J + 1)"
      using ja Suc.prems by (intro Swap_frame inb) auto
    have S: "\<forall>i k. a \<le> i \<and> i \<le> k \<and> k \<le> J \<and> i \<noteq> j - 1 \<and> k \<noteq> j - 1 \<longrightarrow> f (?d ! nat i) \<le> f (?d ! nat k)"
    proof (intro allI impI)
      fix i k assume h: "a \<le> i \<and> i \<le> k \<and> k \<le> J \<and> i \<noteq> j - 1 \<and> k \<noteq> j - 1"
      show "f (?d ! nat i) \<le> f (?d ! nat k)"
      proof (cases "i = j")
        case True
        show ?thesis
        proof (cases "k = j")
          case True
          with \<open>i = j\<close> show ?thesis by simp
        next
          case False
          then have "f (d ! nat (j - 1)) \<le> f (d ! nat k)"
            using h True ja Suc.prems(4) [rule_format, of "j - 1" k] by auto
          then show ?thesis using h True False by (simp add: nth)
        qed
      next
        case ij: False
        show ?thesis
        proof (cases "k = j")
          case True
          have "f (d ! nat i) \<le> f (d ! nat (j - 1))"
            using h ij True Suc.prems(4) [rule_format, of i "j - 1"] Suc.prems(2) by auto
          then show ?thesis using h ij True by (simp add: nth)
        next
          case False
          then show ?thesis using h ij Suc.prems(4) by (simp add: nth)
        qed
      qed
    qed
    have G: "\<forall>k. j - 1 < k \<and> k \<le> J \<longrightarrow> f (?d ! nat (j - 1)) \<le> f (?d ! nat k)"
    proof (intro allI impI)
      fix k assume h: "j - 1 < k \<and> k \<le> J"
      show "f (?d ! nat (j - 1)) \<le> f (?d ! nat k)"
      proof (cases "k = j")
        case True
        then show ?thesis using ja Suc.prems(2) \<open>f (d ! nat j) < f (d ! nat (j - 1))\<close> by (simp add: nth)
      next
        case False
        then show ?thesis using h ja Suc.prems(2,5) by (simp add: nth)
      qed
    qed
    have "frame ?d (insertion_shift lessf ?d a (j - 1)) a (J + 1) \<and>
          sorted_range f (insertion_shift lessf ?d a (j - 1)) a (J + 1)"
      using Suc.hyps(2) ja Suc.prems(2,3) by (intro Suc.hyps(1) S G) auto
    then show ?thesis unfolding r using fr by (auto intro: frame_trans)
  qed
qed

lemma sorted_range_empty [simp]: "b \<le> a + 1 \<Longrightarrow> sorted_range f d a b"
proof -
  assume b: "b \<le> a + 1"
  have "f (d ! nat i) \<le> f (d ! nat j)" if "a \<le> i" "i \<le> j" "j < b" for i j
  proof -
    have "i = j" using that b by linarith
    then show ?thesis by simp
  qed
  then show ?thesis by (simp add: sorted_range_def)
qed

lemma insertion_shift_range:
  fixes f :: "'a \<Rightarrow> int"
  assumes lessf: "\<And>x y. lessf x y = (f x < f y)" and a: "0 \<le> a"
    and j: "a \<le> j" "j < int (length d)" and s: "sorted_range f d a j"
  shows "frame d (insertion_shift lessf d a j) a (j + 1) \<and>
         sorted_range f (insertion_shift lessf d a j) a (j + 1)"
  using j s by (intro insertion_shift_spec [OF lessf a]) (auto simp: sorted_range_def)

lemma insertionSort_fold_spec:
  fixes f :: "'a \<Rightarrow> int"
  assumes lessf: "\<And>x y. lessf x y = (f x < f y)" and a: "0 \<le> a"
  shows "a \<le> i \<Longrightarrow> i \<le> b \<Longrightarrow> b \<le> int (length d) \<Longrightarrow> sorted_range f d a i \<Longrightarrow>
    frame d (fold (\<lambda>i d. insertion_shift lessf d a i) [i..b - 1] d) a b \<and>
    sorted_range f (fold (\<lambda>i d. insertion_shift lessf d a i) [i..b - 1] d) a b"
proof (induction "nat (b - i)" arbitrary: d i)
  case 0
  then have "i = b" by simp
  then show ?case using 0 by simp
next
  case (Suc n)
  then have ib: "i < b" by simp
  let ?d = "insertion_shift lessf d a i"
  have r: "[i..b - 1] = i # [i + 1..b - 1]"
    using ib upto_rec1 [of i "b - 1"] by simp
  have one: "frame d ?d a (i + 1) \<and> sorted_range f ?d a (i + 1)"
    using Suc.prems ib by (intro insertion_shift_range [OF lessf a]) auto
  then have len: "length ?d = length d" by (auto dest: frame_length)
  have "frame ?d (fold (\<lambda>i d. insertion_shift lessf d a i) [i + 1..b - 1] ?d) a b \<and>
        sorted_range f (fold (\<lambda>i d. insertion_shift lessf d a i) [i + 1..b - 1] ?d) a b"
    using Suc.hyps(2) Suc.prems ib one by (intro Suc.hyps(1)) (auto simp: len)
  moreover have "frame d ?d a b" using one ib by (auto intro: frame_mono)
  ultimately show ?case unfolding r by (auto intro: frame_trans)
qed

lemma insertionSort_func_spec:
  fixes f :: "'a \<Rightarrow> int"
  assumes lessf: "\<And>x y. lessf x y = (f x < f y)"
    and a: "0 \<le> a" "a \<le> b" "b \<le> int (length d)"
  shows "frame d (insertionSort_func lessf d a b) a b \<and>
         sorted_range f (insertionSort_func lessf d a b) a b"
proof (cases "a = b")
  case True
  then have "[a + 1..b - 1] = []" by simp
  then show ?thesis using True by (simp add: insertionSort_func_def)
next
  case False
  then show ?thesis unfolding insertionSort_func_def
    using a by (intro insertionSort_fold_spec [OF lessf a(1)]) auto
qed

text \<open>
  \<open>partition_func\<close>: the two scans stop at the first element on the wrong
  side, and the loop keeps the smaller elements to the left of \<open>i\<close> and the
  others to the right of \<open>j\<close>.
\<close>

lemma scan_up_spec:
  fixes f :: "'a \<Rightarrow> int"
  assumes lessf: "\<And>x y. lessf x y = (f x < f y)"
  shows "(\<forall>k. i \<le> k \<and> k < scan_up lessf d a i j \<longrightarrow> f (d ! nat k) < f (d ! nat a)) \<and>
         (scan_up lessf d a i j \<le> j \<longrightarrow> \<not> f (d ! nat (scan_up lessf d a i j)) < f (d ! nat a))"
proof (induction "nat (j + 1 - i)" arbitrary: i)
  case 0
  then have "scan_up lessf d a i j = i" by (subst scan_up.simps) simp
  then show ?case using 0 by simp
next
  case (Suc n)
  then have ij: "i \<le> j" by simp
  show ?case
  proof (cases "f (d ! nat i) < f (d ! nat a)")
    case False
    then have "scan_up lessf d a i j = i" by (subst scan_up.simps) (simp add: Less_def lessf)
    then show ?thesis using False by simp
  next
    case True
    then have r: "scan_up lessf d a i j = scan_up lessf d a (i + 1) j"
      by (subst scan_up.simps) (simp add: Less_def lessf ij)
    have IH: "(\<forall>k. i + 1 \<le> k \<and> k < scan_up lessf d a (i + 1) j \<longrightarrow> f (d ! nat k) < f (d ! nat a)) \<and>
         (scan_up lessf d a (i + 1) j \<le> j \<longrightarrow> \<not> f (d ! nat (scan_up lessf d a (i + 1) j)) < f (d ! nat a))"
      using Suc.hyps(2) by (intro Suc.hyps(1)) simp
    have "f (d ! nat k) < f (d ! nat a)" if "i \<le> k" "k < scan_up lessf d a (i + 1) j" for k
      using that IH True by (cases "k = i") auto
    then show ?thesis unfolding r using IH by simp
  qed
qed

lemma scan_down_spec:
  fixes f :: "'a \<Rightarrow> int"
  assumes lessf: "\<And>x y. lessf x y = (f x < f y)"
  shows "(\<forall>k. scan_down lessf d a i j < k \<and> k \<le> j \<longrightarrow> \<not> f (d ! nat k) < f (d ! nat a)) \<and>
         (i \<le> scan_down lessf d a i j \<longrightarrow> f (d ! nat (scan_down lessf d a i j)) < f (d ! nat a))"
proof (induction "nat (j + 1 - i)" arbitrary: j)
  case 0
  then have "scan_down lessf d a i j = j" by (subst scan_down.simps) simp
  then show ?case using 0 by simp
next
  case (Suc n)
  then have ij: "i \<le> j" by simp
  show ?case
  proof (cases "f (d ! nat j) < f (d ! nat a)")
    case True
    then have "scan_down lessf d a i j = j" by (subst scan_down.simps) (simp add: Less_def lessf)
    then show ?thesis using True by simp
  next
    case False
    then have r: "scan_down lessf d a i j = scan_down lessf d a i (j - 1)"
      by (subst scan_down.simps) (simp add: Less_def lessf ij)
    have IH: "(\<forall>k. scan_down lessf d a i (j - 1) < k \<and> k \<le> j - 1 \<longrightarrow> \<not> f (d ! nat k) < f (d ! nat a)) \<and>
         (i \<le> scan_down lessf d a i (j - 1) \<longrightarrow> f (d ! nat (scan_down lessf d a i (j - 1))) < f (d ! nat a))"
      using Suc.hyps(2) by (intro Suc.hyps(1)) simp
    have "\<not> f (d ! nat k) < f (d ! nat a)" if "scan_down lessf d a i (j - 1) < k" "k \<le> j" for k
      using that IH False by (cases "k = j") auto
    then show ?thesis unfolding r using IH by simp
  qed
qed

lemma partition_loop_spec:
  fixes f :: "'a \<Rightarrow> int"
  assumes lessf: "\<And>x y. lessf x y = (f x < f y)" and a: "0 \<le> a"
  shows "partition_loop lessf d a i j = (d', j') \<Longrightarrow> a < i \<Longrightarrow> i \<le> j + 1 \<Longrightarrow> j < b \<Longrightarrow>
     b \<le> int (length d) \<Longrightarrow> f (d ! nat a) = p \<Longrightarrow>
     (\<forall>k. a < k \<and> k < i \<longrightarrow> f (d ! nat k) < p) \<Longrightarrow>
     (\<forall>k. j < k \<and> k < b \<longrightarrow> \<not> f (d ! nat k) < p) \<Longrightarrow>
     frame d d' (a + 1) b \<and> i - 1 \<le> j' \<and> j' \<le> j \<and>
     (\<forall>k. a < k \<and> k \<le> j' \<longrightarrow> f (d' ! nat k) < p) \<and>
     (\<forall>k. j' < k \<and> k < b \<longrightarrow> \<not> f (d' ! nat k) < p)"
proof (induction "nat (j + 1 - i)" arbitrary: d i j rule: less_induct)
  case less
  let ?i = "scan_up lessf d a i j"
  let ?j = "scan_down lessf d a ?i j"
  note su = scan_up_spec [where f = f and lessf = lessf and i = i and d = d and a = a and j = j, OF lessf]
    and sd = scan_down_spec [where f = f and lessf = lessf and d = d and a = a and i = ?i and j = j, OF lessf]
  have i1: "i \<le> ?i" by (rule scan_up_ge)
  have i2: "?i \<le> j + 1" using less.prems(3) by (rule scan_up_le)
  have j1: "?j \<le> j" by (rule scan_down_le)
  have j2: "?i - 1 \<le> ?j" using i2 by (intro scan_down_ge) simp
  have L: "f (d ! nat k) < p" if "a < k" "k < ?i" for k
    using that su less.prems(6,7) by (cases "k < i") auto
  have R: "\<not> f (d ! nat k) < p" if "?j < k" "k < b" for k
    using that sd less.prems(6,8) by (cases "j < k") auto
  show ?case
  proof (cases "?i > ?j")
    case True
    with less.prems(1) have e: "d' = d" "j' = ?j"
      by (subst (asm) partition_loop.simps; simp add: Let_def)+
    have "?j = ?i - 1" using True j2 by simp
    then show ?thesis using e L R i1 j1 by auto
  next
    case False
    then have ij: "?i \<le> ?j" by simp
    have gi: "\<not> f (d ! nat ?i) < p" using su ij j1 less.prems(6) by auto
    have lj: "f (d ! nat ?j) < p" using sd ij less.prems(6) by auto
    have ne: "?i < ?j" using gi lj ij by (cases "?i = ?j") auto
    let ?d = "Swap d ?i ?j"
    have r: "partition_loop lessf ?d a (?i + 1) (?j - 1) = (d', j')"
      using less.prems(1) False by (subst (asm) partition_loop.simps) (simp add: Let_def)
    have inb: "inb d ?i" "inb d ?j"
      using a less.prems(2,4,5) i1 j1 ij by (auto simp: inb_def)
    have fr: "frame d ?d (a + 1) b"
      using less.prems(2,4) i1 j1 ij by (intro Swap_frame inb) auto
    have nth: "?d ! nat k = (if k = ?j then d ! nat ?i else if k = ?i then d ! nat ?j else d ! nat k)"
      if "0 \<le> k" "k < b" for k
      using that less.prems(5) by (subst Swap_nth [OF inb]) (auto simp: inb_def)
    have IH: "frame ?d d' (a + 1) b \<and> ?i + 1 - 1 \<le> j' \<and> j' \<le> ?j - 1 \<and>
     (\<forall>k. a < k \<and> k \<le> j' \<longrightarrow> f (d' ! nat k) < p) \<and>
     (\<forall>k. j' < k \<and> k < b \<longrightarrow> \<not> f (d' ! nat k) < p)"
    proof (rule less.hyps [OF _ r])
      show "nat (?j - 1 + 1 - (?i + 1)) < nat (j + 1 - i)" using i1 j1 ne by simp
      show "a < ?i + 1" using i1 less.prems(2) by simp
      show "?i + 1 \<le> ?j - 1 + 1" using ne by simp
      show "?j - 1 < b" using j1 less.prems(4) by simp
      show "b \<le> int (length ?d)" using less.prems(5) by simp
      show "f (?d ! nat a) = p"
        using a less.prems(2,4,6) i1 j1 ij by (simp add: nth)
      show "\<forall>k. a < k \<and> k < ?i + 1 \<longrightarrow> f (?d ! nat k) < p"
      proof (intro allI impI)
        fix k assume k: "a < k \<and> k < ?i + 1"
        then have "0 \<le> k" "k < b" using a j1 ij less.prems(4) by auto
        then show "f (?d ! nat k) < p" using k ne lj L [of k] by (simp add: nth)
      qed
      show "\<forall>k. ?j - 1 < k \<and> k < b \<longrightarrow> \<not> f (?d ! nat k) < p"
      proof (intro allI impI)
        fix k assume k: "?j - 1 < k \<and> k < b"
        then have "0 \<le> k" "k < b" using a i1 ij less.prems(2) by auto
        then show "\<not> f (?d ! nat k) < p" using k ne gi R [of k] by (simp add: nth)
      qed
    qed
    then show ?thesis using fr i1 j1 by (auto intro: frame_trans)
  qed
qed

lemma partition_func_loop:
  assumes "partition_loop lessf (Swap d a pivot) a (a + 1) (b - 1) = (d2, j2)"
  shows "\<exists>ap. partition_func lessf d a b pivot = (Swap d2 j2 a, j2, ap)"
  using assms
  by (subst (asm) partition_loop.simps) (auto simp: partition_func_def Let_def split: if_splits prod.splits)

lemma partition_func_spec:
  fixes f :: "'a \<Rightarrow> int"
  assumes lessf: "\<And>x y. lessf x y = (f x < f y)"
    and a: "0 \<le> a" and piv: "a \<le> pivot" "pivot < b" and b: "b \<le> int (length d)"
    and r: "partition_func lessf d a b pivot = (d', mid, ap)"
  shows "frame d d' a b \<and> a \<le> mid \<and> mid < b \<and>
     (\<forall>k. a \<le> k \<and> k < mid \<longrightarrow> f (d' ! nat k) < f (d' ! nat mid)) \<and>
     (\<forall>k. mid < k \<and> k < b \<longrightarrow> \<not> f (d' ! nat k) < f (d' ! nat mid))"
proof -
  let ?d = "Swap d a pivot"
  define p where "p = f (?d ! nat a)"
  obtain d2 j2 where l: "partition_loop lessf ?d a (a + 1) (b - 1) = (d2, j2)"
    by (cases "partition_loop lessf ?d a (a + 1) (b - 1)")
  from partition_func_loop [OF l] r have e: "d' = Swap d2 j2 a" "mid = j2" by auto
  have inb: "inb d a" "inb d pivot" using a piv b by (auto simp: inb_def)
  have fr0: "frame d ?d a b" using piv by (intro Swap_frame inb) auto
  have spec: "frame ?d d2 (a + 1) b \<and> a + 1 - 1 \<le> j2 \<and> j2 \<le> b - 1 \<and>
     (\<forall>k. a < k \<and> k \<le> j2 \<longrightarrow> f (d2 ! nat k) < p) \<and>
     (\<forall>k. j2 < k \<and> k < b \<longrightarrow> \<not> f (d2 ! nat k) < p)"
    using piv b by (intro partition_loop_spec [where f = f and lessf = lessf, OF lessf a l]) (auto simp: p_def)
  then have fr1: "frame ?d d2 (a + 1) b" and j2: "a \<le> j2" "j2 < b"
    and L: "\<And>k. a < k \<Longrightarrow> k \<le> j2 \<Longrightarrow> f (d2 ! nat k) < p"
    and R: "\<And>k. j2 < k \<Longrightarrow> k < b \<Longrightarrow> \<not> f (d2 ! nat k) < p"
    by auto
  have len: "length d2 = length d" using fr1 by (auto dest: frame_length)
  have "d2 ! nat a = ?d ! nat a"
    using a piv b by (intro frame_outside [OF fr1]) (auto simp: inb_def)
  then have pa: "f (d2 ! nat a) = p" by (simp add: p_def)
  have inb2: "inb d2 j2" "inb d2 a" using a j2 b by (auto simp: inb_def len)
  have nth: "d' ! nat k = (if k = a then d2 ! nat j2 else if k = j2 then d2 ! nat a else d2 ! nat k)"
    if "0 \<le> k" "k < b" for k
    unfolding e using that b by (subst Swap_nth [OF inb2]) (auto simp: inb_def len)
  have fr2: "frame d2 d' a b" unfolding e using j2 by (intro Swap_frame inb2) auto
  have fr: "frame d d' a b"
proof -
    have "frame ?d d2 a b" using fr1 by (rule frame_mono) simp_all
    then have "frame d d2 a b" using fr0 by (blast intro: frame_trans)
    then show ?thesis using fr2 by (blast intro: frame_trans)
  qed
  have pm: "f (d' ! nat mid) = p"
  proof (cases "j2 = a")
    case True
    then show ?thesis using a j2 pa by (simp add: nth e(2))
  next
    case False
    then show ?thesis using a j2 pa by (simp add: nth e(2))
  qed
  have "f (d' ! nat k) < f (d' ! nat mid)" if "a \<le> k" "k < mid" for k
  proof (cases "k = a")
    case True
    then show ?thesis using that a j2 L [of j2] by (simp add: pm pa nth e(2))
  next
    case False
    then show ?thesis using that a j2 L [of k] by (simp add: pm pa nth e(2))
  qed
  moreover have "\<not> f (d' ! nat k) < f (d' ! nat mid)" if "mid < k" "k < b" for k
    using that a j2 R [of k] by (simp add: pm pa nth e(2))
  ultimately show ?thesis using fr j2 e(2) by blast
qed

text \<open>
  \<open>partitionEqual_func\<close>: the elements not greater than the pivot go to the
  left.
\<close>

lemma scan_up_equal_le: "i \<le> j + 1 \<Longrightarrow> scan_up_equal lessf data a i j \<le> j + 1"
proof (induction lessf data a i j rule: scan_up_equal.induct)
  case (1 lessf data a i j)
  then show ?case by (subst scan_up_equal.simps) (auto split: if_splits)
qed

lemma scan_down_equal_ge: "i - 1 \<le> j \<Longrightarrow> i - 1 \<le> scan_down_equal lessf data a i j"
proof (induction lessf data a i j rule: scan_down_equal.induct)
  case (1 lessf data a i j)
  then show ?case by (subst scan_down_equal.simps) (auto split: if_splits)
qed

lemma scan_up_equal_spec:
  fixes f :: "'a \<Rightarrow> int"
  assumes lessf: "\<And>x y. lessf x y = (f x < f y)"
  shows "(\<forall>k. i \<le> k \<and> k < scan_up_equal lessf d a i j \<longrightarrow> \<not> f (d ! nat a) < f (d ! nat k)) \<and>
         (scan_up_equal lessf d a i j \<le> j \<longrightarrow> f (d ! nat a) < f (d ! nat (scan_up_equal lessf d a i j)))"
proof (induction "nat (j + 1 - i)" arbitrary: i)
  case 0
  then have "scan_up_equal lessf d a i j = i" by (subst scan_up_equal.simps) simp
  then show ?case using 0 by simp
next
  case (Suc n)
  then have ij: "i \<le> j" by simp
  show ?case
  proof (cases "f (d ! nat a) < f (d ! nat i)")
    case True
    then have "scan_up_equal lessf d a i j = i"
      by (subst scan_up_equal.simps) (simp add: Less_def lessf)
    then show ?thesis using True by simp
  next
    case False
    then have r: "scan_up_equal lessf d a i j = scan_up_equal lessf d a (i + 1) j"
      by (subst scan_up_equal.simps) (simp add: Less_def lessf ij)
    have IH: "(\<forall>k. i + 1 \<le> k \<and> k < scan_up_equal lessf d a (i + 1) j \<longrightarrow> \<not> f (d ! nat a) < f (d ! nat k)) \<and>
         (scan_up_equal lessf d a (i + 1) j \<le> j \<longrightarrow> f (d ! nat a) < f (d ! nat (scan_up_equal lessf d a (i + 1) j)))"
      using Suc.hyps(2) by (intro Suc.hyps(1)) simp
    have "\<not> f (d ! nat a) < f (d ! nat k)" if "i \<le> k" "k < scan_up_equal lessf d a (i + 1) j" for k
      using that IH False by (cases "k = i") auto
    then show ?thesis unfolding r using IH by simp
  qed
qed

lemma scan_down_equal_spec:
  fixes f :: "'a \<Rightarrow> int"
  assumes lessf: "\<And>x y. lessf x y = (f x < f y)"
  shows "(\<forall>k. scan_down_equal lessf d a i j < k \<and> k \<le> j \<longrightarrow> f (d ! nat a) < f (d ! nat k)) \<and>
         (i \<le> scan_down_equal lessf d a i j \<longrightarrow> \<not> f (d ! nat a) < f (d ! nat (scan_down_equal lessf d a i j)))"
proof (induction "nat (j + 1 - i)" arbitrary: j)
  case 0
  then have "scan_down_equal lessf d a i j = j" by (subst scan_down_equal.simps) simp
  then show ?case using 0 by simp
next
  case (Suc n)
  then have ij: "i \<le> j" by simp
  show ?case
  proof (cases "f (d ! nat a) < f (d ! nat j)")
    case False
    then have "scan_down_equal lessf d a i j = j"
      by (subst scan_down_equal.simps) (simp add: Less_def lessf)
    then show ?thesis using False by simp
  next
    case True
    then have r: "scan_down_equal lessf d a i j = scan_down_equal lessf d a i (j - 1)"
      by (subst scan_down_equal.simps) (simp add: Less_def lessf ij)
    have IH: "(\<forall>k. scan_down_equal lessf d a i (j - 1) < k \<and> k \<le> j - 1 \<longrightarrow> f (d ! nat a) < f (d ! nat k)) \<and>
         (i \<le> scan_down_equal lessf d a i (j - 1) \<longrightarrow> \<not> f (d ! nat a) < f (d ! nat (scan_down_equal lessf d a i (j - 1))))"
      using Suc.hyps(2) by (intro Suc.hyps(1)) simp
    have "f (d ! nat a) < f (d ! nat k)" if "scan_down_equal lessf d a i (j - 1) < k" "k \<le> j" for k
      using that IH True by (cases "k = j") auto
    then show ?thesis unfolding r using IH by simp
  qed
qed

lemma partitionEqual_loop_spec:
  fixes f :: "'a \<Rightarrow> int"
  assumes lessf: "\<And>x y. lessf x y = (f x < f y)" and a: "0 \<le> a"
  shows "partitionEqual_loop lessf d a i j = (d', i') \<Longrightarrow> a < i \<Longrightarrow> i \<le> j + 1 \<Longrightarrow> j < b \<Longrightarrow>
     b \<le> int (length d) \<Longrightarrow> f (d ! nat a) = p \<Longrightarrow>
     (\<forall>k. a < k \<and> k < i \<longrightarrow> \<not> p < f (d ! nat k)) \<Longrightarrow>
     (\<forall>k. j < k \<and> k < b \<longrightarrow> p < f (d ! nat k)) \<Longrightarrow>
     frame d d' (a + 1) b \<and> i \<le> i' \<and> i' \<le> j + 1 \<and>
     (\<forall>k. a < k \<and> k < i' \<longrightarrow> \<not> p < f (d' ! nat k)) \<and>
     (\<forall>k. i' \<le> k \<and> k < b \<longrightarrow> p < f (d' ! nat k))"
proof (induction "nat (j + 1 - i)" arbitrary: d i j rule: less_induct)
  case less
  let ?i = "scan_up_equal lessf d a i j"
  let ?j = "scan_down_equal lessf d a ?i j"
  note su = scan_up_equal_spec [where f = f and lessf = lessf and i = i and d = d and a = a and j = j, OF lessf]
    and sd = scan_down_equal_spec [where f = f and lessf = lessf and d = d and a = a and i = ?i and j = j, OF lessf]
  have i1: "i \<le> ?i" by (rule scan_up_equal_ge)
  have i2: "?i \<le> j + 1" using less.prems(3) by (rule scan_up_equal_le)
  have j1: "?j \<le> j" by (rule scan_down_equal_le)
  have j2: "?i - 1 \<le> ?j" using i2 by (intro scan_down_equal_ge) simp
  have L: "\<not> p < f (d ! nat k)" if "a < k" "k < ?i" for k
    using that su less.prems(6,7) by (cases "k < i") auto
  have R: "p < f (d ! nat k)" if "?j < k" "k < b" for k
    using that sd less.prems(6,8) by (cases "j < k") auto
  show ?case
  proof (cases "?i > ?j")
    case True
    with less.prems(1) have e: "d' = d" "i' = ?i"
      by (subst (asm) partitionEqual_loop.simps; simp add: Let_def)+
    have "?j = ?i - 1" using True j2 by simp
    then show ?thesis using e L R i1 i2 by auto
  next
    case False
    then have ij: "?i \<le> ?j" by simp
    have gi: "p < f (d ! nat ?i)" using su ij j1 less.prems(6) by auto
    have lj: "\<not> p < f (d ! nat ?j)" using sd ij less.prems(6) by auto
    have ne: "?i < ?j" using gi lj ij by (cases "?i = ?j") auto
    let ?d = "Swap d ?i ?j"
    have r: "partitionEqual_loop lessf ?d a (?i + 1) (?j - 1) = (d', i')"
      using less.prems(1) False by (subst (asm) partitionEqual_loop.simps) (simp add: Let_def)
    have inb: "inb d ?i" "inb d ?j"
      using a less.prems(2,4,5) i1 j1 ij by (auto simp: inb_def)
    have fr: "frame d ?d (a + 1) b"
      using less.prems(2,4) i1 j1 ij by (intro Swap_frame inb) auto
    have nth: "?d ! nat k = (if k = ?j then d ! nat ?i else if k = ?i then d ! nat ?j else d ! nat k)"
      if "0 \<le> k" "k < b" for k
      using that less.prems(5) by (subst Swap_nth [OF inb]) (auto simp: inb_def)
    have IH: "frame ?d d' (a + 1) b \<and> ?i + 1 \<le> i' \<and> i' \<le> ?j - 1 + 1 \<and>
     (\<forall>k. a < k \<and> k < i' \<longrightarrow> \<not> p < f (d' ! nat k)) \<and>
     (\<forall>k. i' \<le> k \<and> k < b \<longrightarrow> p < f (d' ! nat k))"
    proof (rule less.hyps [OF _ r])
      show "nat (?j - 1 + 1 - (?i + 1)) < nat (j + 1 - i)" using i1 j1 ne by simp
      show "a < ?i + 1" using i1 less.prems(2) by simp
      show "?i + 1 \<le> ?j - 1 + 1" using ne by simp
      show "?j - 1 < b" using j1 less.prems(4) by simp
      show "b \<le> int (length ?d)" using less.prems(5) by simp
      show "f (?d ! nat a) = p"
        using a less.prems(2,4,6) i1 j1 ij by (simp add: nth)
      show "\<forall>k. a < k \<and> k < ?i + 1 \<longrightarrow> \<not> p < f (?d ! nat k)"
      proof (intro allI impI)
        fix k assume k: "a < k \<and> k < ?i + 1"
        then have "0 \<le> k" "k < b" using a j1 ij less.prems(4) by auto
        then show "\<not> p < f (?d ! nat k)" using k ne lj L [of k] by (simp add: nth)
      qed
      show "\<forall>k. ?j - 1 < k \<and> k < b \<longrightarrow> p < f (?d ! nat k)"
      proof (intro allI impI)
        fix k assume k: "?j - 1 < k \<and> k < b"
        then have "0 \<le> k" "k < b" using a i1 ij less.prems(2) by auto
        then show "p < f (?d ! nat k)" using k ne gi R [of k] by (simp add: nth)
      qed
    qed
    then show ?thesis using fr i1 j1 by (auto intro: frame_trans)
  qed
qed

lemma partitionEqual_func_spec:
  fixes f :: "'a \<Rightarrow> int"
  assumes lessf: "\<And>x y. lessf x y = (f x < f y)"
    and a: "0 \<le> a" and piv: "a \<le> pivot" "pivot < b" and b: "b \<le> int (length d)"
    and r: "partitionEqual_func lessf d a b pivot = (d', mid)"
  shows "frame d d' a b \<and> a < mid \<and> mid \<le> b \<and>
     (\<forall>k. a \<le> k \<and> k < mid \<longrightarrow> \<not> f (d ! nat pivot) < f (d' ! nat k)) \<and>
     (\<forall>k. mid \<le> k \<and> k < b \<longrightarrow> f (d ! nat pivot) < f (d' ! nat k))"
proof -
  let ?d = "Swap d a pivot"
  define p where "p = f (d ! nat pivot)"
  have l: "partitionEqual_loop lessf ?d a (a + 1) (b - 1) = (d', mid)"
    using r by (simp add: partitionEqual_func_def Let_def)
  have inb: "inb d a" "inb d pivot" using a piv b by (auto simp: inb_def)
  have fr0: "frame d ?d a b" using piv by (intro Swap_frame inb) auto
  have pa0: "f (?d ! nat a) = p"
    using a piv b by (subst Swap_nth [OF inb]) (auto simp: inb_def p_def)
  have spec: "frame ?d d' (a + 1) b \<and> a + 1 \<le> mid \<and> mid \<le> b - 1 + 1 \<and>
     (\<forall>k. a < k \<and> k < mid \<longrightarrow> \<not> p < f (d' ! nat k)) \<and>
     (\<forall>k. mid \<le> k \<and> k < b \<longrightarrow> p < f (d' ! nat k))"
    using piv b pa0
    by (intro partitionEqual_loop_spec [where f = f and lessf = lessf, OF lessf a l]) auto
  then have fr1: "frame ?d d' (a + 1) b" and mid: "a < mid" "mid \<le> b"
    and L: "\<And>k. a < k \<Longrightarrow> k < mid \<Longrightarrow> \<not> p < f (d' ! nat k)"
    and R: "\<And>k. mid \<le> k \<Longrightarrow> k < b \<Longrightarrow> p < f (d' ! nat k)"
    by auto
  have "d' ! nat a = ?d ! nat a"
    using a piv b by (intro frame_outside [OF fr1]) (auto simp: inb_def)
  then have pa: "f (d' ! nat a) = p" using pa0 by simp
  have fr: "frame d d' a b"
  proof -
    have "frame ?d d' a b" using fr1 by (rule frame_mono) simp_all
    then show ?thesis using fr0 by (blast intro: frame_trans)
  qed
  have "\<not> p < f (d' ! nat k)" if "a \<le> k" "k < mid" for k
    using that L [of k] pa by (cases "k = a") auto
  then show ?thesis using fr mid R unfolding p_def by blast
qed

text \<open>
  \<open>choosePivot_func\<close> returns an index of the range, and
  \<open>reverseRange_func\<close> stays inside it.
\<close>

lemma quo_nonneg: "0 \<le> a \<Longrightarrow> 0 < b \<Longrightarrow> quo a b = a div b"
  by (simp add: quo_def)

lemma order2_func_cases:
  "order2_func lessf d a b s = (x, y, s') \<Longrightarrow> (x = a \<and> y = b) \<or> (x = b \<and> y = a)"
  by (auto simp: order2_func_def split: if_splits)

lemma median_func_cases:
  assumes "median_func lessf d a b c s = (m, s')"
  shows "m = a \<or> m = b \<or> m = c"
proof -
  obtain a1 b1 s1 where 1: "order2_func lessf d a b s = (a1, b1, s1)"
    by (cases "order2_func lessf d a b s")
  obtain b2 c2 s2 where 2: "order2_func lessf d b1 c s1 = (b2, c2, s2)"
    by (cases "order2_func lessf d b1 c s1")
  obtain a3 b3 s3 where 3: "order2_func lessf d a1 b2 s2 = (a3, b3, s3)"
    by (cases "order2_func lessf d a1 b2 s2")
  have "m = b3" using assms by (simp add: median_func_def 1 2 3)
  then show ?thesis
    using order2_func_cases [OF 1] order2_func_cases [OF 2] order2_func_cases [OF 3] by auto
qed

lemma medianAdjacent_func_cases:
  "medianAdjacent_func lessf d a s = (m, s') \<Longrightarrow> m = a - 1 \<or> m = a \<or> m = a + 1"
  using median_func_cases [of lessf d "a - 1" a "a + 1" s m s']
  by (auto simp: medianAdjacent_func_def)

lemma choosePivot_func_bounds:
  assumes l: "12 < b - a" and r: "choosePivot_func lessf d a b = (pivot, hint)"
  shows "a \<le> pivot \<and> pivot < b"
proof -
  define q where "q = (b - a) div 4"
  have q: "3 \<le> q" "4 * q \<le> b - a" using l by (auto simp: q_def)
  have quo: "quo (b - a) 4 = q" using l by (simp add: quo_nonneg q_def)
  show ?thesis
  proof (cases "50 \<le> b - a")
    case True
    obtain i s1 where 1: "medianAdjacent_func lessf d (a + q) 0 = (i, s1)"
      by (cases "medianAdjacent_func lessf d (a + q) 0")
    obtain j s2 where 2: "medianAdjacent_func lessf d (a + q * 2) s1 = (j, s2)"
      by (cases "medianAdjacent_func lessf d (a + q * 2) s1")
    obtain k s3 where 3: "medianAdjacent_func lessf d (a + q * 3) s2 = (k, s3)"
      by (cases "medianAdjacent_func lessf d (a + q * 3) s2")
    obtain m s4 where 4: "median_func lessf d i j k s3 = (m, s4)"
      by (cases "median_func lessf d i j k s3")
    have "pivot = m"
      using r True l by (simp add: choosePivot_func_def Let_def quo 1 2 3 4 split: if_splits)
    then show ?thesis
      using medianAdjacent_func_cases [OF 1] medianAdjacent_func_cases [OF 2]
        medianAdjacent_func_cases [OF 3] median_func_cases [OF 4] q
      by auto
  next
    case False
    obtain m s4 where 4: "median_func lessf d (a + q) (a + q * 2) (a + q * 3) 0 = (m, s4)"
      by (cases "median_func lessf d (a + q) (a + q * 2) (a + q * 3) 0")
    have "pivot = m"
      using r False l by (simp add: choosePivot_func_def Let_def quo 4 split: if_splits)
    then show ?thesis using median_func_cases [OF 4] q by auto
  qed
qed

lemma reverseRange_loop_frame:
  "0 \<le> a \<Longrightarrow> a \<le> i \<Longrightarrow> j < b \<Longrightarrow> b \<le> int (length d) \<Longrightarrow>
   frame d (reverseRange_loop d i j) a b"
proof (induction "nat (j - i)" arbitrary: d i j rule: less_induct)
  case less
  show ?case
  proof (cases "i < j")
    case False
    then show ?thesis by (subst reverseRange_loop.simps) simp
  next
    case True
    let ?d = "Swap d i j"
    have inb: "inb d i" "inb d j" using less.prems True by (auto simp: inb_def)
    have fr: "frame d ?d a b" using less.prems True by (intro Swap_frame inb) auto
    have "frame ?d (reverseRange_loop ?d (i + 1) (j - 1)) a b"
      using less.prems True by (intro less.hyps) auto
    then show ?thesis using fr True
      by (subst reverseRange_loop.simps) (auto intro: frame_trans)
  qed
qed

lemma reverseRange_func_frame:
  "0 \<le> a \<Longrightarrow> b \<le> int (length d) \<Longrightarrow> frame d (reverseRange_func d a b) a b"
  unfolding reverseRange_func_def by (rule reverseRange_loop_frame) auto

text \<open>
  \<open>breakPatterns_func\<close> swaps inside the range: the random offset is masked to
  fewer bits than an int has and reduced below the length.
\<close>

lemma bits_Len_gt: "n < 2 ^ bits_Len n"
proof (induction n rule: bits_Len.induct)
  case (1 n)
  show ?case
  proof (cases "n = 0")
    case True
    then show ?thesis by (subst bits_Len.simps) simp
  next
    case False
    then have "n div 2 < 2 ^ bits_Len (n div 2)" by (rule 1)
    then have "n < 2 * 2 ^ bits_Len (n div 2)" by linarith
    then show ?thesis using False by (subst bits_Len.simps) simp
  qed
qed

lemma bits_Len_le: "0 < n \<Longrightarrow> 2 ^ bits_Len n \<le> 2 * n"
proof (induction n rule: bits_Len.induct)
  case (1 n)
  show ?case
  proof (cases "n div 2 = 0")
    case True
    then have "n = 1" using 1(2) by linarith
    then show ?thesis by (simp add: bits_Len.simps)
  next
    case False
    then have "2 ^ bits_Len (n div 2) \<le> 2 * (n div 2)" using 1 by simp
    then have "2 * 2 ^ bits_Len (n div 2) \<le> 2 * n" by linarith
    then show ?thesis using 1(2) by (subst bits_Len.simps) simp
  qed
qed

lemma masked_bounds:
  fixes r :: "64 word"
  assumes "k \<le> 63"
  shows "0 \<le> sint (r AND (push_bit k 1 - 1)) \<and> sint (r AND (push_bit k 1 - 1)) < 2 ^ k"
proof -
  have m: "push_bit k 1 - 1 = (mask k :: 64 word)"
    by (simp add: push_bit_of_1 mask_eq_decr_exp)
  have u: "uint (r AND mask k) < 2 ^ k" by (rule and_mask_lt_2p)
  have "(2::int) ^ k \<le> 2 ^ 63" using assms by (intro power_increasing) auto
  with u have u63: "uint (r AND mask k) < 2 ^ 63" by linarith
  have "- (2 ^ 63) \<le> uint (r AND mask k)"
  proof -
    have "(0::int) \<le> 2 ^ 63" by simp
    then show ?thesis using uint_ge_0 [of "r AND mask k"] by linarith
  qed
  then have "signed_take_bit 63 (uint (r AND mask k)) = uint (r AND mask k)"
    using u63 by (rule signed_take_bit_int_eq_self)
  then have "sint (r AND mask k) = uint (r AND mask k)"
    by (simp add: sint_uint)
  then show ?thesis unfolding m using u by simp
qed

lemma breakPatterns_round_frame:
  assumes l: "8 \<le> b - a" "b - a < 2 ^ 63" and a: "0 \<le> a" and b: "b \<le> int (length d)"
    and i: "0 \<le> i" "i \<le> 2"
  shows "frame d (snd (breakPatterns_round a (b - a) (nextPowerOfTwo (b - a))
           (a + quo (b - a) 4 * 2 - 1) (r, d) i)) a b"
proof -
  define n where "n = nat (b - a)"
  define k where "k = bits_Len n"
  have n: "0 < n" "int n = b - a" using l by (auto simp: n_def)
  have "(2::nat) ^ k \<le> 2 * n" unfolding k_def using n(1) by (rule bits_Len_le)
  then have "int (2 ^ k) \<le> int (2 * n)" by (simp only: of_nat_le_iff)
  then have pk: "(2::int) ^ k \<le> 2 * (b - a)" using n(2) by simp
  have "(2::int) ^ k < 2 ^ 64" using pk l(2) by simp
  then have "k < 64" by (simp only: power_strict_increasing_iff [of "2::int"]) 
  then have k63: "k \<le> 63" by simp
  define o1 where "o1 = sint (xorshift_Next r AND (nextPowerOfTwo (b - a) - 1))"
  have o1: "0 \<le> o1" "o1 < 2 * (b - a)"
    using masked_bounds [OF k63, of "xorshift_Next r"] pk
    by (auto simp: o1_def nextPowerOfTwo_def k_def n_def)
  define other where "other = (if o1 \<ge> b - a then o1 - (b - a) else o1)"
  have other: "0 \<le> other" "other < b - a" using o1 by (auto simp: other_def)
  define q where "q = (b - a) div 4"
  have q: "2 \<le> q" "4 * q \<le> b - a" using l by (auto simp: q_def)
  have quo: "quo (b - a) 4 = q" using l by (simp add: quo_nonneg q_def)
  have res: "snd (breakPatterns_round a (b - a) (nextPowerOfTwo (b - a))
           (a + quo (b - a) 4 * 2 - 1) (r, d) i) = Swap d (a + q * 2 - 1 + i) (a + other)"
    by (simp add: breakPatterns_round_def Let_def quo o1_def other_def)
  have "inb d (a + q * 2 - 1 + i)" "inb d (a + other)"
    using q i a b other by (auto simp: inb_def)
  then show ?thesis unfolding res using q i a b other by (intro Swap_frame) auto
qed

lemma breakPatterns_func_frame:
  assumes l: "b - a < 2 ^ 63" and a: "0 \<le> a" and b: "b \<le> int (length d)"
  shows "frame d (breakPatterns_func d a b) a b"
proof (cases "8 \<le> b - a")
  case False
  then show ?thesis by (simp add: breakPatterns_func_def Let_def)
next
  case True
  let ?round = "\<lambda>st i. breakPatterns_round a (b - a) (nextPowerOfTwo (b - a))
           (a + quo (b - a) 4 * 2 - 1) st i"
  have upto: "[0..2::int] = [0, 1, 2]" by (simp add: upto.simps)
  have step: "frame d (snd (?round st i)) a b"
    if "frame d (snd st) a b" "0 \<le> i" "i \<le> 2" for st i
  proof -
    have "frame (snd st) (snd (?round (fst st, snd st) i)) a b"
      using that frame_length [OF that(1)] b
      by (intro breakPatterns_round_frame True l a) auto
    then show ?thesis using that(1) by (auto intro: frame_trans)
  qed
  let ?s0 = "(word_of_int (b - a) :: 64 word, d)"
  have 0: "frame d (snd (?round ?s0 0)) a b" by (rule step) simp_all
  have 1: "frame d (snd (?round (?round ?s0 0) 1)) a b" by (rule step [OF 0]) simp_all
  have 2: "frame d (snd (?round (?round (?round ?s0 0) 1) 2)) a b" by (rule step [OF 1]) simp_all
  show ?thesis using True 2 by (simp add: breakPatterns_func_def Let_def upto)
qed

text \<open>
  \<open>partialInsertionSort_func\<close>: its loop towards the left stops at index 1,
  not at \<open>a\<close>; it stays inside the range because no element of the range is
  smaller than the element just before the range, which \<open>pdqsort_func\<close>
  maintains.
\<close>

lemma left_bound_frame:
  assumes fr: "frame d d' a b" and a: "0 \<le> a" and b: "b \<le> int (length d)"
    and L: "left_bound f d a b"
  shows "left_bound f d' a b"
proof (cases "0 < a")
  case False
  then show ?thesis by (simp add: left_bound_def)
next
  case True
  have e: "d' ! nat (a - 1) = d ! nat (a - 1)"
    using True b
  proof (cases "a \<le> b")
    case True
    then show ?thesis using \<open>0 < a\<close> b by (intro frame_outside [OF fr]) (auto simp: inb_def)
  next
    case False
    have "inb d (a - 1) \<or> \<not> inb d (a - 1)" by simp
    then show ?thesis
    proof
      assume "inb d (a - 1)"
      then show ?thesis by (intro frame_outside [OF fr]) auto
    next
      assume n: "\<not> inb d (a - 1)"
      have "d' = d"
      proof (rule nth_equalityI)
        show "length d' = length d" using fr by (rule frame_length)
        fix i assume "i < length d'"
        then have "inb d (int i)" using frame_length [OF fr] by (simp add: inb_def)
        moreover have "int i < a \<or> b \<le> int i" using False by linarith
        ultimately have "d' ! nat (int i) = d ! nat (int i)" by (rule frame_outside [OF fr])
        then show "d' ! i = d ! i" by simp
      qed
      then show ?thesis by simp
    qed
  qed
  have "f (d ! nat (a - 1)) \<le> f (d' ! nat k)" if "a \<le> k" "k < b" for k
    using fr a b _ that
  proof (rule frame_range)
    show "\<forall>i. a \<le> i \<and> i < b \<longrightarrow> f (d ! nat (a - 1)) \<le> f (d ! nat i)"
      using L True by (simp add: left_bound_def)
  qed
  then show ?thesis by (simp add: left_bound_def e)
qed

lemma sorted_range_frame_outside:
  assumes fr: "frame d d' x y" and s: "sorted_range f d a b" and a: "0 \<le> a"
    and b: "b \<le> int (length d)" and o: "b \<le> x \<or> y \<le> a"
  shows "sorted_range f d' a b"
proof -
  have "d' ! nat i = d ! nat i" if "a \<le> i" "i < b" for i
    using that a b o by (intro frame_outside [OF fr]) (auto simp: inb_def)
  then show ?thesis using s by (simp add: sorted_range_def)
qed

lemma skip_ordered_spec:
  fixes f :: "'a \<Rightarrow> int"
  assumes lessf: "\<And>x y. lessf x y = (f x < f y)"
  shows "a < i \<Longrightarrow> i \<le> b \<Longrightarrow> sorted_range f d a i \<Longrightarrow>
     i \<le> skip_ordered lessf d b i \<and> skip_ordered lessf d b i \<le> b \<and>
     sorted_range f d a (skip_ordered lessf d b i) \<and>
     (skip_ordered lessf d b i < b \<longrightarrow>
        f (d ! nat (skip_ordered lessf d b i)) < f (d ! nat (skip_ordered lessf d b i - 1)))"
proof (induction "nat (b - i)" arbitrary: i)
  case 0
  then have "skip_ordered lessf d b i = i" by (subst skip_ordered.simps) simp
  then show ?case using 0 by simp
next
  case (Suc n)
  then have ib: "i < b" by simp
  show ?case
  proof (cases "f (d ! nat i) < f (d ! nat (i - 1))")
    case True
    then have "skip_ordered lessf d b i = i"
      by (subst skip_ordered.simps) (simp add: Less_def lessf)
    then show ?thesis using True Suc.prems by simp
  next
    case False
    then have r: "skip_ordered lessf d b i = skip_ordered lessf d b (i + 1)"
      by (subst skip_ordered.simps) (simp add: Less_def lessf ib)
    have "f (d ! nat x) \<le> f (d ! nat y)" if "a \<le> x" "x \<le> y" "y < i + 1" for x y
    proof (cases "y = i")
      case y: True
      show ?thesis
      proof (cases "x = i")
        case True
        with y show ?thesis by simp
      next
        case False
        then have "f (d ! nat x) \<le> f (d ! nat (i - 1))"
          using that y Suc.prems(3) by (simp add: sorted_range_def)
        then show ?thesis using \<open>\<not> f (d ! nat i) < f (d ! nat (i - 1))\<close> y by simp
      qed
    next
      case False
      then show ?thesis using that Suc.prems(3) by (simp add: sorted_range_def)
    qed
    then have s: "sorted_range f d a (i + 1)" by (simp add: sorted_range_def)
    have "i + 1 \<le> skip_ordered lessf d b (i + 1) \<and> skip_ordered lessf d b (i + 1) \<le> b \<and>
     sorted_range f d a (skip_ordered lessf d b (i + 1)) \<and>
     (skip_ordered lessf d b (i + 1) < b \<longrightarrow>
        f (d ! nat (skip_ordered lessf d b (i + 1))) < f (d ! nat (skip_ordered lessf d b (i + 1) - 1)))"
      using Suc.hyps(2) Suc.prems ib s by (intro Suc.hyps(1)) auto
    then show ?thesis unfolding r by simp
  qed
qed

lemma shift_smaller_eq:
  fixes f :: "'a \<Rightarrow> int"
  assumes lessf: "\<And>x y. lessf x y = (f x < f y)" and a: "0 \<le> a"
  shows "a \<le> j \<Longrightarrow> j < b \<Longrightarrow> b \<le> int (length d) \<Longrightarrow> left_bound f d a b \<Longrightarrow>
     shift_smaller lessf d j = insertion_shift lessf d a j"
proof (induction "nat (j - a)" arbitrary: d j)
  case 0
  then have ja: "j = a" by simp
  have 1: "insertion_shift lessf d a j = d" by (subst insertion_shift.simps) (simp add: ja)
  have "\<not> f (d ! nat a) < f (d ! nat (a - 1))" if "1 \<le> a"
    using that 0(3,5) ja by (auto simp: left_bound_def)
  then have 2: "shift_smaller lessf d j = d"
    by (subst shift_smaller.simps) (simp add: ja Less_def lessf)
  show ?case by (simp add: 1 2)
next
  case (Suc n)
  then have ja: "a < j" by simp
  show ?case
  proof (cases "f (d ! nat j) < f (d ! nat (j - 1))")
    case False
    then show ?thesis
      by (subst shift_smaller.simps, subst insertion_shift.simps) (simp add: Less_def lessf)
  next
    case True
    let ?d = "Swap d j (j - 1)"
    have inb: "inb d j" "inb d (j - 1)" using ja a Suc.prems by (auto simp: inb_def)
    have fr: "frame d ?d a b" using ja Suc.prems by (intro Swap_frame inb) auto
    have L: "left_bound f ?d a b"
      using fr a Suc.prems(3,4) by (rule left_bound_frame)
    have "shift_smaller lessf ?d (j - 1) = insertion_shift lessf ?d a (j - 1)"
      using Suc.hyps(2) ja Suc.prems L by (intro Suc.hyps(1)) auto
    then show ?thesis using True ja a
      by (subst shift_smaller.simps, subst insertion_shift.simps) (simp add: Less_def lessf)
  qed
qed

lemma shift_greater_frame:
  "0 \<le> a \<Longrightarrow> a < j \<Longrightarrow> b \<le> int (length d) \<Longrightarrow> frame d (shift_greater lessf d b j) a b"
proof (induction "nat (b - j)" arbitrary: d j)
  case 0
  then show ?case by (subst shift_greater.simps) simp
next
  case (Suc n)
  then have jb: "j < b" by simp
  show ?case
  proof (cases "Less lessf d j (j - 1)")
    case False
    then show ?thesis by (subst shift_greater.simps) simp
  next
    case True
    let ?d = "Swap d j (j - 1)"
    have inb: "inb d j" "inb d (j - 1)" using jb Suc.prems by (auto simp: inb_def)
    have fr: "frame d ?d a b" using jb Suc.prems by (intro Swap_frame inb) auto
    have "frame ?d (shift_greater lessf ?d b (j + 1)) a b"
      using Suc.hyps(2) Suc.prems by (intro Suc.hyps(1)) auto
    then show ?thesis using True jb fr
      by (subst shift_greater.simps) (auto intro: frame_trans)
  qed
qed

lemma partialInsertionSort_steps_spec:
  fixes f :: "'a \<Rightarrow> int"
  assumes lessf: "\<And>x y. lessf x y = (f x < f y)" and a: "0 \<le> a"
  shows "a < i \<Longrightarrow> i \<le> b \<Longrightarrow> b \<le> int (length d) \<Longrightarrow> left_bound f d a b \<Longrightarrow>
     sorted_range f d a i \<Longrightarrow> partialInsertionSort_steps n lessf d a b i = (d', s) \<Longrightarrow>
     frame d d' a b \<and> (s \<longrightarrow> sorted_range f d' a b)"
proof (induction n arbitrary: d i)
  case 0
  then show ?case by simp
next
  case (Suc n)
  let ?i = "skip_ordered lessf d b i"
  have sk: "i \<le> ?i" "?i \<le> b" "sorted_range f d a ?i"
    using skip_ordered_spec [where f = f and lessf = lessf, OF lessf Suc.prems(1,2,5)] by auto
  show ?case
  proof (cases "?i = b")
    case True
    then have "d' = d" "s" using Suc.prems(6) by (auto simp: Let_def)
    then show ?thesis using sk(3) True by simp
  next
    case ib: False
    show ?thesis
    proof (cases "b - a < 50")
      case True
      then have "d' = d" "\<not> s" using Suc.prems(6) ib by (auto simp: Let_def)
      then show ?thesis by simp
    next
      case False
      let ?d1 = "Swap d ?i (?i - 1)"
      let ?d2 = "if ?i - a \<ge> 2 then shift_smaller lessf ?d1 (?i - 1) else ?d1"
      let ?d3 = "if b - ?i \<ge> 2 then shift_greater lessf ?d2 b (?i + 1) else ?d2"
      have r: "partialInsertionSort_steps n lessf ?d3 a b ?i = (d', s)"
        using Suc.prems(6) ib False by (simp add: Let_def)
      have i: "a < ?i" "?i < b" using sk ib Suc.prems(1) by auto
      have inb: "inb d ?i" "inb d (?i - 1)" using i a Suc.prems(3) by (auto simp: inb_def)
      have fr1: "frame d ?d1 a b" using i by (intro Swap_frame inb) auto
      have len1: "length ?d1 = length d" by simp
      have L1: "left_bound f ?d1 a b" using fr1 a Suc.prems(3,4) by (rule left_bound_frame)
      have fr1': "frame d ?d1 (?i - 1) (?i + 1)" by (intro Swap_frame inb) auto
      have s0: "sorted_range f d a (?i - 1)" using sk(3) by (simp add: sorted_range_def)
      have s1: "sorted_range f ?d1 a (?i - 1)"
        by (rule sorted_range_frame_outside [OF fr1' s0 a]) (use i Suc.prems(3) in auto)
      have two: "frame ?d1 ?d2 a ?i \<and> sorted_range f ?d2 a ?i"
      proof (cases "?i - a \<ge> 2")
        case True
        have e: "shift_smaller lessf ?d1 (?i - 1) = insertion_shift lessf ?d1 a (?i - 1)"
          using True i Suc.prems(3) L1
          by (intro shift_smaller_eq [where f = f and lessf = lessf and b = b, OF lessf a]) auto
        have "frame ?d1 (insertion_shift lessf ?d1 a (?i - 1)) a (?i - 1 + 1) \<and>
              sorted_range f (insertion_shift lessf ?d1 a (?i - 1)) a (?i - 1 + 1)"
          using True i Suc.prems(3) s1
          by (intro insertion_shift_range [where f = f and lessf = lessf, OF lessf a]) auto
        then show ?thesis using True e by simp
      next
        case False
        then show ?thesis using i by simp
      qed
      then have len2: "length ?d2 = length d" using frame_length [of ?d1 ?d2 a ?i] by simp
      have fr3: "frame ?d2 ?d3 ?i b"
      proof (cases "b - ?i \<ge> 2")
        case True
        have "frame ?d2 (shift_greater lessf ?d2 b (?i + 1)) ?i b"
          using a i Suc.prems(3) len2 by (intro shift_greater_frame) auto
        then show ?thesis using True by simp
      next
        case False
        then show ?thesis by simp
      qed
      have s3: "sorted_range f ?d3 a ?i"
        using fr3 conjunct2 [OF two] a
      proof (rule sorted_range_frame_outside)
        show "?i \<le> int (length ?d2)" using i Suc.prems(3) len2 by simp
      qed simp
      have fr: "frame d ?d3 a b"
      proof -
        have "frame ?d1 ?d2 a b" using conjunct1 [OF two] by (rule frame_mono) (use i in auto)
        moreover have "frame ?d2 ?d3 a b" using fr3 by (rule frame_mono) (use i in auto)
        ultimately show ?thesis using fr1 by (blast intro: frame_trans)
      qed
      have len3: "length ?d3 = length d" using fr by (rule frame_length)
      have L3: "left_bound f ?d3 a b" using fr a Suc.prems(3,4) by (rule left_bound_frame)
      have "frame ?d3 d' a b \<and> (s \<longrightarrow> sorted_range f d' a b)"
        using i(1) sk(2) _ L3 s3 r
      proof (rule Suc.IH)
        show "b \<le> int (length ?d3)" using Suc.prems(3) len3 by simp
      qed
      then show ?thesis using fr by (blast intro: frame_trans)
    qed
  qed
qed

lemma partialInsertionSort_func_spec:
  fixes f :: "'a \<Rightarrow> int"
  assumes lessf: "\<And>x y. lessf x y = (f x < f y)" and a: "0 \<le> a" "a < b" "b \<le> int (length d)"
    and L: "left_bound f d a b"
    and r: "partialInsertionSort_func lessf d a b = (d', s)"
  shows "frame d d' a b \<and> (s \<longrightarrow> sorted_range f d' a b)"
proof -
  have "partialInsertionSort_steps 5 lessf d a b (a + 1) = (d', s)"
    using r by (simp add: partialInsertionSort_func_def Let_def)
  then show ?thesis
    using a L
    by (intro partialInsertionSort_steps_spec [where f = f and lessf = lessf and i = "a + 1" and n = 5, OF lessf a(1)])
       auto
qed

text \<open>
  \<open>siftDown_func\<close> restores the heap when only the node \<open>root\<close>
  may be smaller than its children.
\<close>

lemma child_inj:
  fixes c :: int
  shows "c = 2 * r + 1 \<or> c = 2 * r + 2 \<Longrightarrow> c = 2 * r' + 1 \<or> c = 2 * r' + 2 \<Longrightarrow> r = r'"
  by presburger

lemma siftDown_func_step:
  "siftDown_func lessf d root hi first =
     (if 2 * root + 1 \<ge> hi \<or> root < 0 then d
      else let c = (if 2 * root + 2 < hi \<and>
                       Less lessf d (first + (2 * root + 1)) (first + (2 * root + 2))
                    then 2 * root + 2 else 2 * root + 1)
           in if \<not> Less lessf d (first + root) (first + c) then d
              else siftDown_func lessf (Swap d (first + root) (first + c)) c hi first)"
  by (subst siftDown_func.simps) (simp add: Let_def add.assoc)

lemma siftDown_func_spec:
  fixes f :: "'a \<Rightarrow> int"
  assumes lessf: "\<And>x y. lessf x y = (f x < f y)" and first: "0 \<le> first" and lo: "0 \<le> lo"
  shows "lo \<le> root \<Longrightarrow> first + hi \<le> int (length d) \<Longrightarrow>
     (\<forall>r. lo \<le> r \<and> r < hi \<and> r \<noteq> root \<longrightarrow> hp f d first hi r) \<Longrightarrow>
     (\<forall>p c. lo \<le> p \<and> (root = 2 * p + 1 \<or> root = 2 * p + 2) \<and>
            (c = 2 * root + 1 \<or> c = 2 * root + 2) \<and> c < hi \<longrightarrow>
            f (d ! nat (first + c)) \<le> f (d ! nat (first + p))) \<Longrightarrow>
     frame d (siftDown_func lessf d root hi first) (first + root) (first + hi) \<and>
     (\<forall>r. lo \<le> r \<and> r < hi \<longrightarrow> hp f (siftDown_func lessf d root hi first) first hi r)"
proof (induction "nat (hi - root)" arbitrary: d root rule: less_induct)
  case less
  note H1 = less.prems(3) and H2 = less.prems(4)
  have root: "0 \<le> root" using lo less.prems(1) by simp
  show ?case
  proof (cases "2 * root + 1 \<ge> hi")
    case True
    then have e: "siftDown_func lessf d root hi first = d"
      by (subst siftDown_func.simps) (simp add: Let_def)
    have "hp f d first hi root" using True by (auto simp: hp_def)
    then have "hp f d first hi r" if "lo \<le> r" "r < hi" for r
      using that H1 by (cases "r = root") auto
    then show ?thesis by (simp add: e)
  next
    case False
    define c' where "c' = (if 2 * root + 2 < hi \<and>
                       f (d ! nat (first + (2 * root + 1))) < f (d ! nat (first + (2 * root + 2)))
                          then 2 * root + 2 else 2 * root + 1)"
    have c': "c' = 2 * root + 1 \<or> c' = 2 * root + 2" "c' < hi" "root < c'"
      using False root by (auto simp: c'_def)
    have M: "f (d ! nat (first + c)) \<le> f (d ! nat (first + c'))"
      if "c = 2 * root + 1 \<or> c = 2 * root + 2" "c < hi" for c
      using that unfolding c'_def by (cases "c = 2 * root + 1") auto
    have step: "siftDown_func lessf d root hi first =
        (if \<not> f (d ! nat (first + root)) < f (d ! nat (first + c')) then d
         else siftDown_func lessf (Swap d (first + root) (first + c')) c' hi first)"
      unfolding siftDown_func_step [of lessf d root hi first] Let_def Less_def lessf
        c'_def [symmetric]
      using False root by simp
    show ?thesis
    proof (cases "f (d ! nat (first + root)) < f (d ! nat (first + c'))")
      case nl: False
      have e: "siftDown_func lessf d root hi first = d"
        using nl by (simp add: step)
      have "hp f d first hi root"
        unfolding hp_def using M nl by fastforce
      then have "hp f d first hi r" if "lo \<le> r" "r < hi" for r
        using that H1 by (cases "r = root") auto
      then show ?thesis by (simp add: e)
    next
      case True
      let ?d = "Swap d (first + root) (first + c')"
      have e: "siftDown_func lessf d root hi first = siftDown_func lessf ?d c' hi first"
        using True by (simp add: step)
      have inb: "inb d (first + root)" "inb d (first + c')"
        using first root c' less.prems(2) by (auto simp: inb_def)
      have nth: "?d ! nat (first + k) =
          (if k = c' then d ! nat (first + root) else if k = root then d ! nat (first + c')
           else d ! nat (first + k))" if "0 \<le> k" "k < hi" for k
        using that first less.prems(2) by (subst Swap_nth [OF inb]) (auto simp: inb_def)
      have fr: "frame d ?d (first + root) (first + hi)"
        using c' by (intro Swap_frame inb) auto
      have H1': "\<forall>r. lo \<le> r \<and> r < hi \<and> r \<noteq> c' \<longrightarrow> hp f ?d first hi r"
      proof (intro allI impI)
        fix r assume r: "lo \<le> r \<and> r < hi \<and> r \<noteq> c'"
        then have r0: "0 \<le> r" using lo by simp
        show "hp f ?d first hi r" unfolding hp_def
        proof (intro allI impI)
          fix c assume c: "(c = 2 * r + 1 \<or> c = 2 * r + 2) \<and> c < hi"
          then have c0: "0 \<le> c" "r < c" using r0 by auto
          show "f (?d ! nat (first + c)) \<le> f (?d ! nat (first + r))"
          proof (cases "r = root")
            case True
            show ?thesis
            proof (cases "c = c'")
              case True
              then show ?thesis
                using \<open>r = root\<close> r c c0 r0 \<open>f (d ! nat (first + root)) < f (d ! nat (first + c'))\<close>
                by (simp add: nth)
            next
              case False
              have "f (d ! nat (first + c)) \<le> f (d ! nat (first + c'))"
                using c \<open>r = root\<close> by (intro M) auto
              then show ?thesis using \<open>r = root\<close> False r c c0 r0 by (simp add: nth)
            qed
          next
            case False
            have cc: "c \<noteq> c'" using child_inj [of c r root] c c'(1) False by auto
            show ?thesis
            proof (cases "c = root")
              case True
              have "f (d ! nat (first + c')) \<le> f (d ! nat (first + r))"
                using H2 [rule_format, of r c'] r c c' True by auto
              then show ?thesis using True False r c c0 r0 cc by (simp add: nth)
            next
              case cr: False
              have "hp f d first hi r" using H1 r False by auto
              then have "f (d ! nat (first + c)) \<le> f (d ! nat (first + r))"
                using c by (auto simp: hp_def)
              then show ?thesis using False cr r c c0 r0 cc by (simp add: nth)
            qed
          qed
        qed
      qed
      have H2': "\<forall>p c. lo \<le> p \<and> (c' = 2 * p + 1 \<or> c' = 2 * p + 2) \<and>
            (c = 2 * c' + 1 \<or> c = 2 * c' + 2) \<and> c < hi \<longrightarrow>
            f (?d ! nat (first + c)) \<le> f (?d ! nat (first + p))"
      proof (intro allI impI)
        fix p c assume h: "lo \<le> p \<and> (c' = 2 * p + 1 \<or> c' = 2 * p + 2) \<and>
            (c = 2 * c' + 1 \<or> c = 2 * c' + 2) \<and> c < hi"
        have p: "p = root" using child_inj [of c' p root] h c'(1) by auto
        have c: "c' < c" "0 \<le> c" "c < hi" using h c'(3) root by auto
        have "hp f d first hi c'" using H1 c' less.prems(1) by auto
        then have "f (d ! nat (first + c)) \<le> f (d ! nat (first + c'))"
          using h by (auto simp: hp_def)
        then show "f (?d ! nat (first + c)) \<le> f (?d ! nat (first + p))"
          using p c c' root by (simp add: nth)
      qed
      have "frame ?d (siftDown_func lessf ?d c' hi first) (first + c') (first + hi) \<and>
            (\<forall>r. lo \<le> r \<and> r < hi \<longrightarrow> hp f (siftDown_func lessf ?d c' hi first) first hi r)"
      proof (rule less.hyps [OF _ _ _ H1' H2'])
        show "nat (hi - c') < nat (hi - root)" using c' by auto
        show "lo \<le> c'" using c' less.prems(1) by simp
        show "first + hi \<le> int (length ?d)" using less.prems(2) by simp
      qed
      moreover have "frame ?d (siftDown_func lessf ?d c' hi first) (first + root) (first + hi)"
        if "frame ?d (siftDown_func lessf ?d c' hi first) (first + c') (first + hi)"
        using that by (rule frame_mono) (use c' in auto)
      ultimately show ?thesis unfolding e using fr by (blast intro: frame_trans)
    qed
  qed
qed

text \<open>
  \<open>heapSort_func\<close>: building the heap, and the root of a heap is its maximum.
\<close>

lemma rev_upto_0: "0 \<le> k \<Longrightarrow> rev [0..k] = k # rev [0..k - 1]"
  using upto_rec2 [of 0 k] by simp

lemma heap_build:
  fixes f :: "'a \<Rightarrow> int"
  assumes lessf: "\<And>x y. lessf x y = (f x < f y)" and first: "0 \<le> first"
  shows "- 1 \<le> k \<Longrightarrow> first + hi \<le> int (length d) \<Longrightarrow>
     (\<forall>r. k + 1 \<le> r \<and> r < hi \<longrightarrow> hp f d first hi r) \<Longrightarrow>
     frame d (fold (\<lambda>i d. siftDown_func lessf d i hi first) (rev [0..k]) d) first (first + hi) \<and>
     (\<forall>r. 0 \<le> r \<and> r < hi \<longrightarrow>
        hp f (fold (\<lambda>i d. siftDown_func lessf d i hi first) (rev [0..k]) d) first hi r)"
proof (induction "nat (k + 1)" arbitrary: d k)
  case 0
  then have "k = - 1" by simp
  then show ?case using 0 by simp
next
  case (Suc n)
  then have k: "0 \<le> k" by simp
  let ?d = "siftDown_func lessf d k hi first"
  have one: "frame d ?d (first + k) (first + hi) \<and> (\<forall>r. k \<le> r \<and> r < hi \<longrightarrow> hp f ?d first hi r)"
  proof (rule siftDown_func_spec [where f = f and lessf = lessf, OF lessf first k _ Suc.prems(2)])
    show "k \<le> k" by simp
    show "\<forall>r. k \<le> r \<and> r < hi \<and> r \<noteq> k \<longrightarrow> hp f d first hi r"
      using Suc.prems(3) by auto
    show "\<forall>p c. k \<le> p \<and> (k = 2 * p + 1 \<or> k = 2 * p + 2) \<and>
            (c = 2 * k + 1 \<or> c = 2 * k + 2) \<and> c < hi \<longrightarrow>
            f (d ! nat (first + c)) \<le> f (d ! nat (first + p))"
      using k by auto
  qed
  then have fr: "frame d ?d first (first + hi)" using k by (auto intro: frame_mono)
  then have len: "length ?d = length d" by (rule frame_length)
  have "frame ?d (fold (\<lambda>i d. siftDown_func lessf d i hi first) (rev [0..k - 1]) ?d) first (first + hi) \<and>
     (\<forall>r. 0 \<le> r \<and> r < hi \<longrightarrow>
        hp f (fold (\<lambda>i d. siftDown_func lessf d i hi first) (rev [0..k - 1]) ?d) first hi r)"
  proof (rule Suc.hyps(1))
    show "n = nat (k - 1 + 1)" using Suc.hyps(2) by simp
    show "- 1 \<le> k - 1" using k by simp
    show "first + hi \<le> int (length ?d)" using Suc.prems(2) len by simp
    show "\<forall>r. k - 1 + 1 \<le> r \<and> r < hi \<longrightarrow> hp f ?d first hi r" using one by simp
  qed
  then show ?case unfolding rev_upto_0 [OF k] using fr by (auto intro: frame_trans)
qed

lemma heap_max:
  fixes f :: "'a \<Rightarrow> int"
  assumes h: "\<forall>r. 0 \<le> r \<and> r < k \<longrightarrow> hp f d first k r"
  shows "0 \<le> r \<Longrightarrow> r < k \<Longrightarrow> f (d ! nat (first + r)) \<le> f (d ! nat first)"
proof (induction "nat r" arbitrary: r rule: less_induct)
  case less
  show ?case
  proof (cases "r = 0")
    case True
    then show ?thesis by simp
  next
    case False
    define p where "p = (r - 1) div 2"
    have p: "0 \<le> p" "p < r" "r = 2 * p + 1 \<or> r = 2 * p + 2"
      using False less.prems(1) by (auto simp: p_def)
    have "hp f d first k p" using h p less.prems(2) by auto
    then have "f (d ! nat (first + r)) \<le> f (d ! nat (first + p))"
      using p(3) less.prems(2) by (auto simp: hp_def)
    moreover have "f (d ! nat (first + p)) \<le> f (d ! nat first)"
      using p less.prems by (intro less.hyps) auto
    ultimately show ?thesis by simp
  qed
qed

text \<open>
  Extracting the maximum \<open>hi\<close> times leaves the range sorted.
\<close>

lemma heap_extract:
  fixes f :: "'a \<Rightarrow> int"
  assumes lessf: "\<And>x y. lessf x y = (f x < f y)" and first: "0 \<le> first"
  shows "0 \<le> k \<Longrightarrow> k \<le> hi \<Longrightarrow> first + hi \<le> int (length d) \<Longrightarrow>
     (\<forall>r. 0 \<le> r \<and> r < k \<longrightarrow> hp f d first k r) \<Longrightarrow>
     sorted_range f d (first + k) (first + hi) \<Longrightarrow>
     (\<forall>x y. first \<le> x \<and> x < first + k \<and> first + k \<le> y \<and> y < first + hi \<longrightarrow>
        f (d ! nat x) \<le> f (d ! nat y)) \<Longrightarrow>
     frame d (fold (\<lambda>i d. siftDown_func lessf (Swap d first (first + i)) 0 i first)
                (rev [0..k - 1]) d) first (first + hi) \<and>
     sorted_range f (fold (\<lambda>i d. siftDown_func lessf (Swap d first (first + i)) 0 i first)
                (rev [0..k - 1]) d) first (first + hi)"
proof (induction "nat k" arbitrary: d k)
  case 0
  then have "k = 0" by simp
  then show ?case using 0 by simp
next
  case (Suc n)
  then have k: "1 \<le> k" by simp
  define i where "i = k - 1"
  have i: "0 \<le> i" "i < k" "k = i + 1" using k by (auto simp: i_def)
  note heap = Suc.prems(4) and srt = Suc.prems(5) and sep = Suc.prems(6)
  let ?d1 = "Swap d first (first + i)"
  let ?d2 = "siftDown_func lessf ?d1 0 i first"
  have inb: "inb d first" "inb d (first + i)"
    using first i Suc.prems(2,3) by (auto simp: inb_def)
  have nth1: "?d1 ! nat y = (if y = first + i then d ! nat first
                else if y = first then d ! nat (first + i) else d ! nat y)"
    if "first \<le> y" "y < first + hi" for y
    using that first Suc.prems(3) by (subst Swap_nth [OF inb]) (auto simp: inb_def)
  have fr1: "frame d ?d1 first (first + hi)"
    using i Suc.prems(2) by (intro Swap_frame inb) auto
  have len1: "length ?d1 = length d" by simp
  have max: "f (d ! nat x) \<le> f (d ! nat first)" if "first \<le> x" "x < first + k" for x
  proof -
    have "f (d ! nat (first + (x - first))) \<le> f (d ! nat first)"
      using that by (intro heap_max [OF heap]) auto
    then show ?thesis by simp
  qed
  have two: "frame ?d1 ?d2 (first + 0) (first + i) \<and> (\<forall>r. 0 \<le> r \<and> r < i \<longrightarrow> hp f ?d2 first i r)"
  proof (rule siftDown_func_spec [where f = f and lessf = lessf, OF lessf first])
    show "(0::int) \<le> 0" "(0::int) \<le> 0" by simp_all
    show "first + i \<le> int (length ?d1)" using i Suc.prems(2,3) by simp
    show "\<forall>r. 0 \<le> r \<and> r < i \<and> r \<noteq> 0 \<longrightarrow> hp f ?d1 first i r"
    proof (intro allI impI)
      fix r assume r: "0 \<le> r \<and> r < i \<and> r \<noteq> 0"
      have h: "hp f d first k r" using heap r i by auto
      show "hp f ?d1 first i r" unfolding hp_def
      proof (intro allI impI)
        fix c assume c: "(c = 2 * r + 1 \<or> c = 2 * r + 2) \<and> c < i"
        have "f (d ! nat (first + c)) \<le> f (d ! nat (first + r))"
          using h c i by (auto simp: hp_def)
        moreover have "?d1 ! nat (first + c) = d ! nat (first + c)"
          using c r i Suc.prems(2) by (subst nth1) auto
        moreover have "?d1 ! nat (first + r) = d ! nat (first + r)"
          using r i Suc.prems(2) by (subst nth1) auto
        ultimately show "f (?d1 ! nat (first + c)) \<le> f (?d1 ! nat (first + r))" by simp
      qed
    qed
    show "\<forall>p c. 0 \<le> p \<and> (0 = 2 * p + 1 \<or> 0 = 2 * p + 2) \<and>
            (c = 2 * 0 + 1 \<or> c = 2 * 0 + 2) \<and> c < i \<longrightarrow>
            f (?d1 ! nat (first + c)) \<le> f (?d1 ! nat (first + p))"
    proof -
      have "\<not> (0 \<le> p \<and> (0 = 2 * p + 1 \<or> 0 = 2 * p + 2))" for p :: int by presburger
      then show ?thesis by blast
    qed
  qed
  then have fr2: "frame ?d1 ?d2 first (first + i)" by simp
  have len2: "length ?d2 = length d" using frame_length [OF fr2] by simp
  have out2: "?d2 ! nat y = ?d1 ! nat y" if "first + i \<le> y" "y < first + hi" for y
    using that first i Suc.prems(3) by (intro frame_outside [OF fr2]) (auto simp: inb_def)
  have srt2: "sorted_range f ?d2 (first + i) (first + hi)"
    unfolding sorted_range_def
  proof (intro allI impI)
    fix x y assume xy: "first + i \<le> x \<and> x \<le> y \<and> y < first + hi"
    have e: "?d2 ! nat x = ?d1 ! nat x" "?d2 ! nat y = ?d1 ! nat y"
      using xy by (auto intro: out2)
    show "f (?d2 ! nat x) \<le> f (?d2 ! nat y)"
    proof (cases "x = first + i")
      case True
      show ?thesis
      proof (cases "y = x")
        case True
        then show ?thesis by simp
      next
        case False
        then have "f (d ! nat first) \<le> f (d ! nat y)"
          using sep [rule_format, of first y] xy True i by auto
        then show ?thesis using True False xy i unfolding e by (simp add: nth1)
      qed
    next
      case False
      then have "f (d ! nat x) \<le> f (d ! nat y)"
        using srt xy i by (auto simp: sorted_range_def)
      then show ?thesis using False xy i unfolding e by (simp add: nth1)
    qed
  qed
  have sep2: "\<forall>x y. first \<le> x \<and> x < first + i \<and> first + i \<le> y \<and> y < first + hi \<longrightarrow>
        f (?d2 ! nat x) \<le> f (?d2 ! nat y)"
  proof (intro allI impI)
    fix x y assume xy: "first \<le> x \<and> x < first + i \<and> first + i \<le> y \<and> y < first + hi"
    have e: "?d2 ! nat y = ?d1 ! nat y" using xy by (auto intro: out2)
    have all: "\<forall>x'. first \<le> x' \<and> x' < first + i \<longrightarrow> f (?d1 ! nat x') \<le> f (?d1 ! nat y)"
    proof (intro allI impI)
      fix x' assume x': "first \<le> x' \<and> x' < first + i"
      define x'' where "x'' = (if x' = first then first + i else x')"
      have x'': "first \<le> x''" "x'' < first + k" "?d1 ! nat x' = d ! nat x''"
        using x' i Suc.prems(2) by (auto simp: x''_def nth1)
      show "f (?d1 ! nat x') \<le> f (?d1 ! nat y)"
      proof (cases "y = first + i")
        case True
        then show ?thesis using max [OF x''(1,2)] xy i unfolding x''(3) by (simp add: nth1)
      next
        case False
        then have "f (d ! nat x'') \<le> f (d ! nat y)"
          using sep [rule_format, of x'' y] x'' xy i by auto
        then show ?thesis using False xy i unfolding x''(3) by (simp add: nth1)
      qed
    qed
    have "f (?d2 ! nat x) \<le> f (?d1 ! nat y)"
    proof (rule frame_range [OF fr2 first _ all])
      show "first + i \<le> int (length ?d1)" using i Suc.prems(2,3) by simp
      show "first \<le> x" "x < first + i" using xy by auto
    qed
    then show "f (?d2 ! nat x) \<le> f (?d2 ! nat y)" by (simp only: e)
  qed
  have IH: "frame ?d2 (fold (\<lambda>i d. siftDown_func lessf (Swap d first (first + i)) 0 i first)
                (rev [0..i - 1]) ?d2) first (first + hi) \<and>
     sorted_range f (fold (\<lambda>i d. siftDown_func lessf (Swap d first (first + i)) 0 i first)
                (rev [0..i - 1]) ?d2) first (first + hi)"
  proof (rule Suc.hyps(1) [OF _ _ _ _ _ srt2 sep2])
    show "n = nat i" using Suc.hyps(2) i by simp
    show "0 \<le> i" "i \<le> hi" using i Suc.prems(2) by auto
    show "first + hi \<le> int (length ?d2)" using Suc.prems(3) len2 by simp
    show "\<forall>r. 0 \<le> r \<and> r < i \<longrightarrow> hp f ?d2 first i r" using two by simp
  qed
  have fr: "frame d ?d2 first (first + hi)"
  proof -
    have "frame ?d1 ?d2 first (first + hi)"
      using fr2 by (rule frame_mono) (use i Suc.prems(2) in auto)
    then show ?thesis using fr1 by (blast intro: frame_trans)
  qed
  have r: "rev [0..k - 1] = i # rev [0..i - 1]"
    using rev_upto_0 [of "k - 1"] k by (simp add: i_def)
  show ?case unfolding r using IH fr by (auto intro: frame_trans)
qed

lemma heapSort_func_spec:
  fixes f :: "'a \<Rightarrow> int"
  assumes lessf: "\<And>x y. lessf x y = (f x < f y)"
    and a: "0 \<le> a" "a < b" "b \<le> int (length d)"
  shows "frame d (heapSort_func lessf d a b) a b \<and> sorted_range f (heapSort_func lessf d a b) a b"
proof -
  define hi where "hi = b - a"
  define m where "m = (hi - 1) div 2"
  have hi: "1 \<le> hi" "a + hi = b" using a by (auto simp: hi_def)
  have m: "0 \<le> m" "hi \<le> 2 * m + 2" using hi by (auto simp: m_def)
  have quo: "quo (hi - 1) 2 = m" using hi by (simp add: quo_nonneg m_def)
  let ?d1 = "fold (\<lambda>i d. siftDown_func lessf d i hi a) (rev [0..m]) d"
  let ?d2 = "fold (\<lambda>i d. siftDown_func lessf (Swap d a (a + i)) 0 i a) (rev [0..hi - 1]) ?d1"
  have e: "heapSort_func lessf d a b = ?d2"
    by (simp add: heapSort_func_def Let_def quo hi_def [symmetric])
  have one: "frame d ?d1 a (a + hi) \<and> (\<forall>r. 0 \<le> r \<and> r < hi \<longrightarrow> hp f ?d1 a hi r)"
  proof (rule heap_build [where f = f and lessf = lessf, OF lessf a(1)])
    show "- 1 \<le> m" using m by simp
    show "a + hi \<le> int (length d)" using a hi by simp
    show "\<forall>r. m + 1 \<le> r \<and> r < hi \<longrightarrow> hp f d a hi r"
      using m by (auto simp: hp_def)
  qed
  then have len1: "length ?d1 = length d" using frame_length [of d ?d1 a "a + hi"] by simp
  have two: "frame ?d1 ?d2 a (a + hi) \<and> sorted_range f ?d2 a (a + hi)"
  proof (rule heap_extract [where f = f and lessf = lessf, OF lessf a(1)])
    show "0 \<le> hi" "hi \<le> hi" using hi by auto
    show "a + hi \<le> int (length ?d1)" using a hi len1 by simp
    show "\<forall>r. 0 \<le> r \<and> r < hi \<longrightarrow> hp f ?d1 a hi r" using one by simp
    show "sorted_range f ?d1 (a + hi) (a + hi)" by simp
    show "\<forall>x y. a \<le> x \<and> x < a + hi \<and> a + hi \<le> y \<and> y < a + hi \<longrightarrow>
        f (?d1 ! nat x) \<le> f (?d1 ! nat y)" by auto
  qed
  show ?thesis unfolding e using one two hi(2) by (auto intro: frame_trans)
qed

text \<open>
  \<open>pdqsort_func\<close>: one round of its loop, then its correctness by induction on
  the length of the range.
\<close>

lemma pdqsort_func_step:
  assumes "12 < b - a" "limit \<noteq> 0"
    and "d1 = (if wb then d else breakPatterns_func d a b)"
    and "limit1 = (if wb then limit else limit - 1)"
    and "choosePivot_func lessf d1 a b = (pivot, hint)"
    and "d2 = (if hint = decreasingHint then reverseRange_func d1 a b else d1)"
    and "pivot2 = (if hint = decreasingHint then (b - 1) - (pivot - a) else pivot)"
    and "hint2 = (if hint = decreasingHint then increasingHint else hint)"
    and "(if wb \<and> wp \<and> hint2 = increasingHint
          then partialInsertionSort_func lessf d2 a b else (d2, False)) = (d3, sorted')"
  shows "pdqsort_func lessf d a b limit wb wp =
     (if sorted' then d3
      else if a > 0 \<and> \<not> Less lessf d3 (a - 1) pivot2 then
        let (d4, mid) = partitionEqual_func lessf d3 a b pivot2
        in pdqsort_func lessf d4 mid b limit1 wb wp
      else
        let (d4, mid, ap) = partition_func lessf d3 a b pivot2
        in if mid - a < b - mid then
             pdqsort_func lessf (pdqsort_func lessf d4 a mid limit1 True True)
               (mid + 1) b limit1 (mid - a \<ge> quo (b - a) 8) ap
           else
             pdqsort_func lessf (pdqsort_func lessf d4 (mid + 1) b limit1 True True)
               a mid limit1 (b - mid \<ge> quo (b - a) 8) ap)"
  unfolding assms(3,4,6,7,8)
  using assms(1,2) assms(5,9) [unfolded assms(3,4,6,7,8)]
  apply (subst pdqsort_func.simps)
  apply (cases wb; cases "hint = decreasingHint"; cases wp; cases "hint = increasingHint")
                 apply (simp_all add: Let_def)
  done

lemma sorted_range_join:
  assumes "sorted_range f d a m" "sorted_range f d m b"
    and "\<forall>x y. a \<le> x \<and> x < m \<and> m \<le> y \<and> y < b \<longrightarrow> f (d ! nat x) \<le> f (d ! nat y)"
  shows "sorted_range f d a b"
  unfolding sorted_range_def
proof (intro allI impI)
  fix i j assume h: "a \<le> i \<and> i \<le> j \<and> j < b"
  show "f (d ! nat i) \<le> f (d ! nat j)"
  proof (cases "j < m")
    case True
    then show ?thesis using assms(1) h by (simp add: sorted_range_def)
  next
    case False
    show ?thesis
    proof (cases "i < m")
      case True
      then show ?thesis using assms(3) h False by simp
    next
      case False
      then show ?thesis using assms(2) h by (simp add: sorted_range_def)
    qed
  qed
qed

lemma sorted_range_pivot:
  fixes f :: "'a \<Rightarrow> int"
  assumes "sorted_range f d a m" "sorted_range f d (m + 1) b"
    and L: "\<forall>x. a \<le> x \<and> x < m \<longrightarrow> f (d ! nat x) \<le> f (d ! nat m)"
    and R: "\<forall>y. m < y \<and> y < b \<longrightarrow> f (d ! nat m) \<le> f (d ! nat y)"
  shows "sorted_range f d a b"
  unfolding sorted_range_def
proof (intro allI impI)
  fix i j assume h: "a \<le> i \<and> i \<le> j \<and> j < b"
  consider "j < m" | "i < m" "j = m" | "i < m" "m < j" | "i = m" "j = m" | "i = m" "m < j" | "m < i"
    using h by linarith
  then show "f (d ! nat i) \<le> f (d ! nat j)"
  proof cases
    case 1
    then show ?thesis using assms(1) h by (simp add: sorted_range_def)
  next
    case 2
    then show ?thesis using L h by simp
  next
    case 3
    then have "f (d ! nat i) \<le> f (d ! nat m)" "f (d ! nat m) \<le> f (d ! nat j)"
      using L R h by auto
    then show ?thesis by linarith
  next
    case 4
    then show ?thesis by simp
  next
    case 5
    then show ?thesis using R h by simp
  next
    case 6
    then show ?thesis using assms(2) h by (simp add: sorted_range_def)
  qed
qed

lemma left_bound_mono: "left_bound f d a b \<Longrightarrow> b' \<le> b \<Longrightarrow> left_bound f d a b'"
  by (auto simp: left_bound_def)

lemma pdqsort_func_spec:
  fixes f :: "'a \<Rightarrow> int"
  assumes lessf: "\<And>x y. lessf x y = (f x < f y)"
  shows "0 \<le> a \<Longrightarrow> a \<le> b \<Longrightarrow> b \<le> int (length d) \<Longrightarrow> int (length d) < 2 ^ 63 \<Longrightarrow>
     left_bound f d a b \<Longrightarrow>
     frame d (pdqsort_func lessf d a b limit wb wp) a b \<and>
     sorted_range f (pdqsort_func lessf d a b limit wb wp) a b"
proof (induction "nat (b - a)" arbitrary: d a b limit wb wp rule: less_induct)
  case less
  note a = less.prems(1) and ab = less.prems(2) and b = less.prems(3)
    and len = less.prems(4) and L = less.prems(5)
  show ?case
  proof (cases "b - a \<le> 12")
    case True
    then have "pdqsort_func lessf d a b limit wb wp = insertionSort_func lessf d a b"
      by (subst pdqsort_func.simps) (simp add: Let_def)
    then show ?thesis
      using insertionSort_func_spec [where f = f and lessf = lessf, OF lessf a ab b] by simp
  next
    case long: False
    show ?thesis
    proof (cases "limit = 0")
      case True
      then have "pdqsort_func lessf d a b limit wb wp = heapSort_func lessf d a b"
        using long by (subst pdqsort_func.simps) (simp add: Let_def)
      moreover have "a < b" using long by simp
      ultimately show ?thesis
        using heapSort_func_spec [where f = f and lessf = lessf, OF lessf a _ b] by simp
    next
      case False
      define d1 where "d1 = (if wb then d else breakPatterns_func d a b)"
      define limit1 where "limit1 = (if wb then limit else limit - 1)"
      obtain pivot hint where cp: "choosePivot_func lessf d1 a b = (pivot, hint)"
        by (cases "choosePivot_func lessf d1 a b")
      define d2 where "d2 = (if hint = decreasingHint then reverseRange_func d1 a b else d1)"
      define pivot2 where "pivot2 = (if hint = decreasingHint then (b - 1) - (pivot - a) else pivot)"
      define hint2 where "hint2 = (if hint = decreasingHint then increasingHint else hint)"
      obtain d3 sorted' where pis: "(if wb \<and> wp \<and> hint2 = increasingHint
          then partialInsertionSort_func lessf d2 a b else (d2, False)) = (d3, sorted')"
        by (cases "if wb \<and> wp \<and> hint2 = increasingHint
          then partialInsertionSort_func lessf d2 a b else (d2, False)")
      have l12: "12 < b - a" using long by simp
      note step = pdqsort_func_step [OF l12 False d1_def limit1_def cp d2_def pivot2_def hint2_def pis]
      have "b - a < 2 ^ 63" using a b len by linarith
      then have fr01: "frame d d1 a b"
        using a b by (simp add: d1_def breakPatterns_func_frame)
      have len1: "length d1 = length d" using fr01 by (rule frame_length)
      have pv: "a \<le> pivot" "pivot < b" using choosePivot_func_bounds [OF l12 cp] by auto
      have fr12: "frame d1 d2 a b"
        using a b len1 by (simp add: d2_def reverseRange_func_frame)
      have pv2: "a \<le> pivot2" "pivot2 < b" using pv by (auto simp: pivot2_def)
      have fr02: "frame d d2 a b" using fr01 fr12 by (rule frame_trans)
      have len2: "length d2 = length d" using fr02 by (rule frame_length)
      have L2: "left_bound f d2 a b" using fr02 a b L by (rule left_bound_frame)
      have three: "frame d2 d3 a b \<and> (sorted' \<longrightarrow> sorted_range f d3 a b)"
      proof (cases "wb \<and> wp \<and> hint2 = increasingHint")
        case True
        then have "partialInsertionSort_func lessf d2 a b = (d3, sorted')" using pis by simp
        then show ?thesis
          using l12 b len2
          by (intro partialInsertionSort_func_spec [where f = f and lessf = lessf, OF lessf a _ _ L2])
             auto
      next
        case False
        then show ?thesis using pis by auto
      qed
      then have fr23: "frame d2 d3 a b" by simp
      have fr03: "frame d d3 a b" using fr02 fr23 by (rule frame_trans)
      have len3: "length d3 = length d" using fr03 by (rule frame_length)
      have b3: "b \<le> int (length d3)" using b len3 by simp
      have L3: "left_bound f d3 a b" using fr03 a b L by (rule left_bound_frame)
      show ?thesis
      proof (cases sorted')
        case True
        then show ?thesis using step three fr03 by simp
      next
        case ns: False
        show ?thesis
        proof (cases "a > 0 \<and> \<not> Less lessf d3 (a - 1) pivot2")
          case True
          obtain d4 mid where pe: "partitionEqual_func lessf d3 a b pivot2 = (d4, mid)"
            by (cases "partitionEqual_func lessf d3 a b pivot2")
          let ?r = "pdqsort_func lessf d4 mid b limit1 wb wp"
          have res: "pdqsort_func lessf d a b limit wb wp = ?r"
            using step ns True pe by simp
          define p where "p = f (d3 ! nat pivot2)"
          have pes: "frame d3 d4 a b \<and> a < mid \<and> mid \<le> b \<and>
             (\<forall>k. a \<le> k \<and> k < mid \<longrightarrow> \<not> p < f (d4 ! nat k)) \<and>
             (\<forall>k. mid \<le> k \<and> k < b \<longrightarrow> p < f (d4 ! nat k))"
            unfolding p_def
            by (rule partitionEqual_func_spec [where f = f and lessf = lessf, OF lessf a pv2 b3 pe])
          then have fr34: "frame d3 d4 a b" and mid: "a < mid" "mid \<le> b"
            and LE: "\<And>k. a \<le> k \<Longrightarrow> k < mid \<Longrightarrow> \<not> p < f (d4 ! nat k)"
            and GT: "\<And>k. mid \<le> k \<Longrightarrow> k < b \<Longrightarrow> p < f (d4 ! nat k)"
            by auto
          have fr04: "frame d d4 a b" using fr03 fr34 by (rule frame_trans)
          have len4: "length d4 = length d" using fr04 by (rule frame_length)
          have L4: "left_bound f d4 a b" using fr04 a b L by (rule left_bound_frame)
          have "d4 ! nat (a - 1) = d3 ! nat (a - 1)"
            using True ab b3 by (intro frame_outside [OF fr34]) (auto simp: inb_def)
          moreover have "\<not> f (d3 ! nat (a - 1)) < p"
            using True by (simp add: Less_def lessf p_def)
          ultimately have low: "p \<le> f (d4 ! nat (a - 1))" by simp
          have EQ: "f (d4 ! nat k) = p" if "a \<le> k" "k < mid" for k
          proof -
            have "f (d4 ! nat (a - 1)) \<le> f (d4 ! nat k)"
              using L4 True that mid by (auto simp: left_bound_def)
            then show ?thesis using low LE [OF that] by linarith
          qed
          have Lm: "left_bound f d4 mid b"
            unfolding left_bound_def
          proof (intro impI allI)
            fix i assume "0 < mid" "mid \<le> i \<and> i < b"
            then have "p < f (d4 ! nat i)" using GT by simp
            moreover have "f (d4 ! nat (mid - 1)) = p" using mid by (intro EQ) auto
            ultimately show "f (d4 ! nat (mid - 1)) \<le> f (d4 ! nat i)" by simp
          qed
          have IH: "frame d4 ?r mid b \<and> sorted_range f ?r mid b"
          proof (rule less.hyps [OF _ _ _ _ _ Lm])
            show "nat (b - mid) < nat (b - a)" using mid ab l12 by simp
            show "0 \<le> mid" using a mid by simp
            show "mid \<le> b" by (rule mid)
            show "b \<le> int (length d4)" using b len4 by simp
            show "int (length d4) < 2 ^ 63" using len len4 by simp
          qed
          then have fr4r: "frame d4 ?r mid b" and sr: "sorted_range f ?r mid b" by auto
          have "frame d4 ?r a b" using fr4r by (rule frame_mono) (use mid in auto)
          then have fr: "frame d ?r a b" using fr04 by (blast intro: frame_trans)
          have same: "?r ! nat k = d4 ! nat k" if "a \<le> k" "k < mid" for k
            using that a mid b len4 by (intro frame_outside [OF fr4r]) (auto simp: inb_def)
          have s1: "sorted_range f ?r a mid"
            unfolding sorted_range_def using same EQ by auto
          have cross: "\<forall>x y. a \<le> x \<and> x < mid \<and> mid \<le> y \<and> y < b \<longrightarrow>
              f (?r ! nat x) \<le> f (?r ! nat y)"
          proof (intro allI impI)
            fix x y assume xy: "a \<le> x \<and> x < mid \<and> mid \<le> y \<and> y < b"
            have "f (?r ! nat x) = p" using xy same EQ by simp
            moreover have "p < f (?r ! nat y)"
            proof (rule frame_range [OF fr4r, where P = "\<lambda>z. p < f z"])
              show "0 \<le> mid" using a mid by simp
              show "b \<le> int (length d4)" using b len4 by simp
              show "\<forall>i. mid \<le> i \<and> i < b \<longrightarrow> p < f (d4 ! nat i)" using GT by simp
              show "mid \<le> y" "y < b" using xy by auto
            qed
            ultimately show "f (?r ! nat x) \<le> f (?r ! nat y)" by simp
          qed
          have "sorted_range f ?r a b" using s1 sr cross by (rule sorted_range_join)
          then show ?thesis using fr by (simp add: res)
        next
          case False
          obtain d4 mid ap where pt: "partition_func lessf d3 a b pivot2 = (d4, mid, ap)"
            by (cases "partition_func lessf d3 a b pivot2")
          define pm where "pm = f (d4 ! nat mid)"
          have pts: "frame d3 d4 a b \<and> a \<le> mid \<and> mid < b \<and>
             (\<forall>k. a \<le> k \<and> k < mid \<longrightarrow> f (d4 ! nat k) < pm) \<and>
             (\<forall>k. mid < k \<and> k < b \<longrightarrow> \<not> f (d4 ! nat k) < pm)"
            unfolding pm_def
            by (rule partition_func_spec [where f = f and lessf = lessf, OF lessf a pv2 b3 pt])
          then have fr34: "frame d3 d4 a b" and mid: "a \<le> mid" "mid < b"
            and LT: "\<forall>k. a \<le> k \<and> k < mid \<longrightarrow> f (d4 ! nat k) < pm"
            and GE: "\<forall>k. mid < k \<and> k < b \<longrightarrow> \<not> f (d4 ! nat k) < pm"
            by auto
          have fr04: "frame d d4 a b" using fr03 fr34 by (rule frame_trans)
          have len4: "length d4 = length d" using fr04 by (rule frame_length)
          have b4: "b \<le> int (length d4)" using b len4 by simp
          have L4: "left_bound f d4 a b" using fr04 a b L by (rule left_bound_frame)
          have Ll: "left_bound f d4 a mid" using L4 by (rule left_bound_mono) (use mid in simp)
          have GE': "pm \<le> f (d4 ! nat k)" if "mid + 1 \<le> k" "k < b" for k
            using GE [rule_format, of k] that by simp
          have Lr: "left_bound f d4 (mid + 1) b"
            using GE' by (simp add: left_bound_def pm_def)
          show ?thesis
          proof (cases "mid - a < b - mid")
            case left: True
            let ?d5 = "pdqsort_func lessf d4 a mid limit1 True True"
            let ?r = "pdqsort_func lessf ?d5 (mid + 1) b limit1 (mid - a \<ge> quo (b - a) 8) ap"
            have res: "pdqsort_func lessf d a b limit wb wp = ?r"
              using step ns False pt left by simp
            have IH1: "frame d4 ?d5 a mid \<and> sorted_range f ?d5 a mid"
            proof (rule less.hyps [OF _ a mid(1) _ _ Ll])
              show "nat (mid - a) < nat (b - a)" using mid by simp
              show "mid \<le> int (length d4)" using mid b4 by simp
              show "int (length d4) < 2 ^ 63" using len len4 by simp
            qed
            then have fr45: "frame d4 ?d5 a mid" and s5: "sorted_range f ?d5 a mid" by auto
            have len5: "length ?d5 = length d" using frame_length [OF fr45] len4 by simp
            have same5: "?d5 ! nat k = d4 ! nat k" if "mid \<le> k" "k < b" for k
              using that a mid b4 by (intro frame_outside [OF fr45]) (auto simp: inb_def)
            have L5: "left_bound f ?d5 (mid + 1) b"
              unfolding left_bound_def
            proof (intro impI allI)
              fix i assume i: "mid + 1 \<le> i \<and> i < b"
              then have "?d5 ! nat i = d4 ! nat i" "?d5 ! nat mid = d4 ! nat mid"
                using mid by (auto intro: same5)
              then show "f (?d5 ! nat (mid + 1 - 1)) \<le> f (?d5 ! nat i)"
                using GE' [of i] i by (simp add: pm_def)
            qed
            have IH2: "frame ?d5 ?r (mid + 1) b \<and> sorted_range f ?r (mid + 1) b"
            proof (rule less.hyps [OF _ _ _ _ _ L5])
              show "nat (b - (mid + 1)) < nat (b - a)" using mid by simp
              show "0 \<le> mid + 1" using a mid by simp
              show "mid + 1 \<le> b" using mid by simp
              show "b \<le> int (length ?d5)" using b len5 by simp
              show "int (length ?d5) < 2 ^ 63" using len len5 by simp
            qed
            then have fr5r: "frame ?d5 ?r (mid + 1) b" and sr: "sorted_range f ?r (mid + 1) b"
              by auto
            have samer: "?r ! nat k = ?d5 ! nat k" if "a \<le> k" "k \<le> mid" for k
              using that a mid b len5 by (intro frame_outside [OF fr5r]) (auto simp: inb_def)
            have rm: "f (?r ! nat mid) = pm" using mid by (simp add: samer same5 pm_def)
            have s1: "sorted_range f ?r a mid"
              by (rule sorted_range_frame_outside [OF fr5r s5 a]) (use mid b len5 in auto)
            have lo: "\<forall>x. a \<le> x \<and> x < mid \<longrightarrow> f (?r ! nat x) \<le> f (?r ! nat mid)"
            proof (intro allI impI)
              fix x assume x: "a \<le> x \<and> x < mid"
              have "f (?d5 ! nat x) < pm"
              proof (rule frame_range [OF fr45 a _ LT])
                show "mid \<le> int (length d4)" using mid b4 by simp
                show "a \<le> x" "x < mid" using x by auto
              qed
              then show "f (?r ! nat x) \<le> f (?r ! nat mid)" using x samer [of x] rm by simp
            qed
            have hi: "\<forall>y. mid < y \<and> y < b \<longrightarrow> f (?r ! nat mid) \<le> f (?r ! nat y)"
            proof (intro allI impI)
              fix y assume y: "mid < y \<and> y < b"
              have "\<not> f (?r ! nat y) < pm"
              proof (rule frame_range [OF fr5r, where P = "\<lambda>z. \<not> f z < pm"])
                show "0 \<le> mid + 1" using a mid by simp
                show "b \<le> int (length ?d5)" using b len5 by simp
                show "\<forall>i. mid + 1 \<le> i \<and> i < b \<longrightarrow> \<not> f (?d5 ! nat i) < pm"
                  using GE by (simp add: same5)
                show "mid + 1 \<le> y" "y < b" using y by auto
              qed
              then show "f (?r ! nat mid) \<le> f (?r ! nat y)" by (simp add: rm)
            qed
            have srt: "sorted_range f ?r a b" using s1 sr lo hi by (rule sorted_range_pivot)
            have "frame d4 ?d5 a b" using fr45 by (rule frame_mono) (use mid in auto)
            moreover have "frame ?d5 ?r a b" using fr5r by (rule frame_mono) (use mid in auto)
            ultimately have "frame d ?r a b" using fr04 by (blast intro: frame_trans)
            then show ?thesis using srt by (simp add: res)
          next
            case right: False
            let ?d5 = "pdqsort_func lessf d4 (mid + 1) b limit1 True True"
            let ?r = "pdqsort_func lessf ?d5 a mid limit1 (b - mid \<ge> quo (b - a) 8) ap"
            have res: "pdqsort_func lessf d a b limit wb wp = ?r"
              using step ns False pt right by simp
            have IH1: "frame d4 ?d5 (mid + 1) b \<and> sorted_range f ?d5 (mid + 1) b"
            proof (rule less.hyps [OF _ _ _ b4 _ Lr])
              show "nat (b - (mid + 1)) < nat (b - a)" using mid by simp
              show "0 \<le> mid + 1" using a mid by simp
              show "mid + 1 \<le> b" using mid by simp
              show "int (length d4) < 2 ^ 63" using len len4 by simp
            qed
            then have fr45: "frame d4 ?d5 (mid + 1) b" and s5: "sorted_range f ?d5 (mid + 1) b"
              by auto
            have len5: "length ?d5 = length d" using frame_length [OF fr45] len4 by simp
            have same5: "?d5 ! nat k = d4 ! nat k" if "0 \<le> k" "k \<le> mid" for k
              using that mid b4 by (intro frame_outside [OF fr45]) (auto simp: inb_def)
            have L5: "left_bound f ?d5 a mid"
              unfolding left_bound_def
            proof (intro impI allI)
              fix i assume i: "0 < a" "a \<le> i \<and> i < mid"
              then have "?d5 ! nat i = d4 ! nat i" "?d5 ! nat (a - 1) = d4 ! nat (a - 1)"
                using mid by (auto intro: same5)
              then show "f (?d5 ! nat (a - 1)) \<le> f (?d5 ! nat i)"
                using Ll i by (simp add: left_bound_def)
            qed
            have IH2: "frame ?d5 ?r a mid \<and> sorted_range f ?r a mid"
            proof (rule less.hyps [OF _ a mid(1) _ _ L5])
              show "nat (mid - a) < nat (b - a)" using mid by simp
              show "mid \<le> int (length ?d5)" using mid b len5 by simp
              show "int (length ?d5) < 2 ^ 63" using len len5 by simp
            qed
            then have fr5r: "frame ?d5 ?r a mid" and s1: "sorted_range f ?r a mid" by auto
            have samer: "?r ! nat k = ?d5 ! nat k" if "mid \<le> k" "k < b" for k
              using that a mid b len5 by (intro frame_outside [OF fr5r]) (auto simp: inb_def)
            have rm: "f (?r ! nat mid) = pm" using a mid by (simp add: samer same5 pm_def)
            have sr: "sorted_range f ?r (mid + 1) b"
            proof (rule sorted_range_frame_outside [OF fr5r s5])
              show "0 \<le> mid + 1" using a mid by simp
              show "b \<le> int (length ?d5)" using b len5 by simp
              show "b \<le> a \<or> mid \<le> mid + 1" by simp
            qed
            have lo: "\<forall>x. a \<le> x \<and> x < mid \<longrightarrow> f (?r ! nat x) \<le> f (?r ! nat mid)"
            proof (intro allI impI)
              fix x assume x: "a \<le> x \<and> x < mid"
              have "f (?r ! nat x) < pm"
              proof (rule frame_range [OF fr5r a, where P = "\<lambda>z. f z < pm"])
                show "mid \<le> int (length ?d5)" using mid b len5 by simp
                show "\<forall>i. a \<le> i \<and> i < mid \<longrightarrow> f (?d5 ! nat i) < pm"
                  using LT a by (simp add: same5)
                show "a \<le> x" "x < mid" using x by auto
              qed
              then show "f (?r ! nat x) \<le> f (?r ! nat mid)" by (simp add: rm)
            qed
            have hi: "\<forall>y. mid < y \<and> y < b \<longrightarrow> f (?r ! nat mid) \<le> f (?r ! nat y)"
            proof (intro allI impI)
              fix y assume y: "mid < y \<and> y < b"
              have "\<not> f (?d5 ! nat y) < pm"
              proof (rule frame_range [OF fr45 _ b4, where P = "\<lambda>z. \<not> f z < pm"])
                show "0 \<le> mid + 1" using a mid by simp
                show "\<forall>i. mid + 1 \<le> i \<and> i < b \<longrightarrow> \<not> f (d4 ! nat i) < pm"
                  using GE by simp
                show "mid + 1 \<le> y" "y < b" using y by auto
              qed
              then show "f (?r ! nat mid) \<le> f (?r ! nat y)" using y samer [of y] rm by simp
            qed
            have srt: "sorted_range f ?r a b" using s1 sr lo hi by (rule sorted_range_pivot)
            have "frame d4 ?d5 a b" using fr45 by (rule frame_mono) (use mid in auto)
            moreover have "frame ?d5 ?r a b" using fr5r by (rule frame_mono) (use mid in auto)
            ultimately have "frame d ?r a b" using fr04 by (blast intro: frame_trans)
            then show ?thesis using srt by (simp add: res)
          qed
        qed
      qed
    qed
  qed
qed

text \<open>
  \<open>sort.Slice\<close> returns a permutation of its input that is sorted by the key.
\<close>

lemma sorted_range_sorted:
  fixes f :: "'a \<Rightarrow> int"
  assumes "sorted_range f d 0 (int (length d))"
  shows "sorted (map f d)"
  unfolding sorted_iff_nth_mono
proof (intro allI impI)
  fix i j assume "i \<le> j" "j < length (map f d)"
  then have "0 \<le> int i \<and> int i \<le> int j \<and> int j < int (length d)" by simp
  then have "f (d ! nat (int i)) \<le> f (d ! nat (int j))"
    using assms unfolding sorted_range_def by blast
  then show "map f d ! i \<le> map f d ! j"
    using \<open>i \<le> j\<close> \<open>j < length (map f d)\<close> by simp
qed

lemma go_sort_Slice_sorts:
  fixes f :: "'a \<Rightarrow> int"
  assumes lessf: "\<And>x y. lessf x y = (f x < f y)" and len: "int (length x) < 2 ^ 63"
  shows "mset (go_sort_Slice lessf x) = mset x \<and> sorted (map f (go_sort_Slice lessf x))"
proof -
  let ?r = "pdqsort_func lessf x 0 (int (length x)) (int (bits_Len (nat (int (length x))))) True True"
  have "frame x ?r 0 (int (length x)) \<and> sorted_range f ?r 0 (int (length x))"
    using len
    by (intro pdqsort_func_spec [where f = f and lessf = lessf, OF lessf]) (simp_all add: left_bound_def)
  then have fr: "frame x ?r 0 (int (length x))" and s: "sorted_range f ?r 0 (int (length x))"
    by auto
  have "length ?r = length x" using fr by (rule frame_length)
  then have "sorted (map f ?r)" using s by (intro sorted_range_sorted) simp
  moreover have "mset ?r = mset x" using fr by (rule frame_mset)
  ultimately show ?thesis by (simp add: go_sort_Slice_def Let_def)
qed

subsection \<open>Loader: validation and registration\<close>

lemma validate_webhooks_valid:
  "\<forall>d\<in>set ds. \<not> entry_invalid d \<Longrightarrow> validate_webhooks i ds = Inr (map set_defaults ds)"
  by (induction ds arbitrary: i) (auto simp: entry_invalid_def validateWebhookType_def)

lemma validate_webhooks_invalid:
  "k < length ds \<Longrightarrow> entry_invalid (ds ! k) \<Longrightarrow> \<forall>j<k. \<not> entry_invalid (ds ! j) \<Longrightarrow>
     validate_webhooks i ds = Inl (entry_error (i + k) (ds ! k))"
proof (induction ds arbitrary: i k)
  case Nil
  then show ?case by simp
next
  case (Cons d ds)
  show ?case
  proof (cases k)
    case 0
    with Cons.prems show ?thesis
      by (auto simp: entry_invalid_def entry_error_def validateWebhookType_def)
  next
    case (Suc k')
    with Cons.prems have d: "\<not> entry_invalid d" by auto
    have "validate_webhooks (Suc i) ds = Inl (entry_error (Suc i + k') (ds ! k'))"
      using Cons.prems Suc by (intro Cons.IH) auto
    with d Suc show ?thesis
      by (auto simp: entry_invalid_def validateWebhookType_def)
  qed
qed

lemma first_invalid:
  "\<exists>d\<in>set ds. P d \<Longrightarrow> \<exists>k<length ds. P (ds ! k) \<and> (\<forall>j<k. \<not> P (ds ! j))"
proof (induction ds)
  case Nil
  then show ?case by simp
next
  case (Cons d ds)
  show ?case
  proof (cases "P d")
    case True
    then show ?thesis by (intro exI [of _ 0]) simp
  next
    case False
    with Cons obtain k where k: "k < length ds" "P (ds ! k)" "\<forall>j<k. \<not> P (ds ! j)" by auto
    show ?thesis
    proof (intro exI [of _ "Suc k"] conjI allI impI)
      fix j assume "j < Suc k"
      then show "\<not> P ((d # ds) ! j)" using False k(3) by (cases j) auto
    qed (use k in auto)
  qed
qed

lemma create_middlewares_registry:
  "registry (create_middlewares lib ds reg) = fold (\<lambda>d r. Register r d) ds reg"
  by (induction ds arbitrary: reg) (auto simp: Let_def split: sum.splits)

lemma fold_Register_dom:
  "dom (fold (\<lambda>d r. Register r d) ds reg) = dom reg \<union> Name ` set ds"
  by (induction ds arbitrary: reg) (auto simp: Register_def)

lemma fold_Register_notin:
  "n \<notin> Name ` set ds \<Longrightarrow> fold (\<lambda>d r. Register r d) ds reg n = reg n"
  by (induction ds arbitrary: reg) (auto simp: Register_def)

lemma Register_same: "Register reg x (Name x) = Some x"
  by (simp add: Register_def)

lemma fold_Register_in:
  "n \<in> Name ` set ds \<Longrightarrow>
     \<exists>d'\<in>set ds. fold (\<lambda>d r. Register r d) ds reg n = Some d' \<and> Name d' = n"
proof (induction ds arbitrary: reg)
  case Nil
  then show ?case by simp
next
  case (Cons x xs)
  show ?case
  proof (cases "n \<in> Name ` set xs")
    case True
    then show ?thesis using Cons.IH [of "Register reg x"] by auto
  next
    case False
    with Cons.prems have n: "n = Name x" by auto
    have "fold (\<lambda>d r. Register r d) xs (Register reg x) n = Register reg x n"
      using False by (rule fold_Register_notin)
    then show ?thesis by (simp add: n Register_same)
  qed
qed

lemma fold_Register_distinct:
  "distinct (map Name ds) \<Longrightarrow> d \<in> set ds \<Longrightarrow>
     fold (\<lambda>d r. Register r d) ds reg (Name d) = Some d"
proof (induction ds arbitrary: reg)
  case Nil
  then show ?case by simp
next
  case (Cons x xs)
  show ?case
  proof (cases "d \<in> set xs")
    case True
    with Cons show ?thesis by simp
  next
    case False
    with Cons.prems have [simp]: "d = x" by simp
    have "Name x \<notin> Name ` set xs" using Cons.prems(1) by auto
    then have "fold (\<lambda>d r. Register r d) xs (Register reg x) (Name x) = Register reg x (Name x)"
      by (rule fold_Register_notin)
    then show ?thesis by (simp add: Register_same)
  qed
qed


lemma Name_set_defaults [simp]: "Name (set_defaults d) = Name d"
  by (simp add: set_defaults_def)

lemma LoadWebhookMiddlewares_registry:
  assumes "\<not> os_Stat_IsNotExist lib (config_path lib config)"
    and "parseWebhookConfigFile lib (config_path lib config) = Inr ds'"
  shows "registry (LoadWebhookMiddlewares lib config) =
     fold (\<lambda>d r. Register r d) (if ds' = [] then [] else sort_Slice lib priority_less ds')
       Map.empty"
  using assms
  by (simp add: LoadWebhookMiddlewares_def Let_def NewWebhookRegistry_def
      create_middlewares_registry)

text \<open>
  Claim C4. Let the config file exist, be readable and decode to the entries \<open>ds\<close>.
  If some entry has an empty url, an empty type or a type other than \<open>error\<close>,
  \<open>info\<close> and \<open>all\<close>, then \<open>parseWebhookConfigFile\<close> fails with the error of the
  first such entry, which names its index when the url is missing and its name when the
  type is bad, and \<open>LoadWebhookMiddlewares\<close> returns no middleware and an empty
  registry. If every entry is valid (and \<open>sort.Slice\<close> returns a permutation of its
  input, as Go's implementation does for every file of fewer than \<open>2 ^ 63\<close> entries,
  the bound of a Go slice), every name of the file is registered, and only these: each
  name maps to a definition of the file with that name, with its defaults set, and to
  the definition itself when the names of the file are distinct. This holds whether or
  not a middleware can be built from the definition.
\<close>

theorem load_fail_fast_or_register_all:
  assumes exists: "\<not> os_Stat_IsNotExist lib (config_path lib config)"
    and read: "os_ReadFile lib (config_path lib config) = Inr data"
    and parsed: "json_Unmarshal_WebhooksFile lib data = Inr ds"
  shows
   "((\<exists>d\<in>set ds. entry_invalid d) \<longrightarrow>
       (\<exists>k<length ds. entry_invalid (ds ! k) \<and> (\<forall>j<k. \<not> entry_invalid (ds ! j)) \<and>
          parseWebhookConfigFile lib (config_path lib config) = Inl (entry_error k (ds ! k)) \<and>
          LoadWebhookMiddlewares lib config =
            \<lparr>middlewares = [], registry = Map.empty,
             load_log = [Error_failed_to_parse (config_path lib config)
                           (entry_error k (ds ! k))]\<rparr>))
    \<and> ((\<forall>d\<in>set ds. \<not> entry_invalid d)
        \<and> (mset (sort_Slice lib priority_less (map set_defaults ds)) = mset (map set_defaults ds)
           \<or> sort_Slice lib = go_sort_Slice \<and> int (length ds) < 2 ^ 63)
        \<longrightarrow>
         parseWebhookConfigFile lib (config_path lib config) = Inr (map set_defaults ds) \<and>
         dom (registry (LoadWebhookMiddlewares lib config)) = Name ` set ds \<and>
         (\<forall>d\<in>set ds. \<exists>d'\<in>set ds.
             registry (LoadWebhookMiddlewares lib config) (Name d) = Some (set_defaults d')
             \<and> Name d' = Name d) \<and>
         (distinct (map Name ds) \<longrightarrow>
            (\<forall>d\<in>set ds.
               registry (LoadWebhookMiddlewares lib config) (Name d) = Some (set_defaults d))))"
proof (intro conjI impI)
  assume "\<exists>d\<in>set ds. entry_invalid d"
  then obtain k where k: "k < length ds" "entry_invalid (ds ! k)" "\<forall>j<k. \<not> entry_invalid (ds ! j)"
    using first_invalid [of ds entry_invalid] by auto
  have p: "parseWebhookConfigFile lib (config_path lib config) = Inl (entry_error k (ds ! k))"
    using validate_webhooks_invalid [OF k, of 0] read parsed
    by (simp add: parseWebhookConfigFile_def)
  have "LoadWebhookMiddlewares lib config =
            \<lparr>middlewares = [], registry = Map.empty,
             load_log = [Error_failed_to_parse (config_path lib config)
                           (entry_error k (ds ! k))]\<rparr>"
    using exists p by (simp add: LoadWebhookMiddlewares_def Let_def NewWebhookRegistry_def)
  with k p show "\<exists>k<length ds. entry_invalid (ds ! k) \<and> (\<forall>j<k. \<not> entry_invalid (ds ! j)) \<and>
          parseWebhookConfigFile lib (config_path lib config) = Inl (entry_error k (ds ! k)) \<and>
          LoadWebhookMiddlewares lib config =
            \<lparr>middlewares = [], registry = Map.empty,
             load_log = [Error_failed_to_parse (config_path lib config)
                           (entry_error k (ds ! k))]\<rparr>"
    by blast
next
  assume a: "(\<forall>d\<in>set ds. \<not> entry_invalid d)
        \<and> (mset (sort_Slice lib priority_less (map set_defaults ds)) = mset (map set_defaults ds)
           \<or> sort_Slice lib = go_sort_Slice \<and> int (length ds) < 2 ^ 63)"
  let ?ds = "map set_defaults ds"
  let ?sorted = "if ?ds = [] then [] else sort_Slice lib priority_less ?ds"
  let ?reg = "registry (LoadWebhookMiddlewares lib config)"
  have valid: "\<forall>d\<in>set ds. \<not> entry_invalid d" using a by simp
  have perm: "mset (sort_Slice lib priority_less ?ds) = mset ?ds"
  proof (cases "sort_Slice lib = go_sort_Slice \<and> int (length ds) < 2 ^ 63")
    case True
    have less: "\<And>a b. priority_less a b = (Priority a < Priority b)"
      by (simp add: priority_less_def)
    have "int (length ?ds) < 2 ^ 63" using True by simp
    then have "mset (go_sort_Slice priority_less ?ds) = mset ?ds \<and>
        sorted (map Priority (go_sort_Slice priority_less ?ds))"
      by (rule go_sort_Slice_sorts [where f = Priority and lessf = priority_less, OF less])
    then show ?thesis using True by simp
  next
    case False
    then show ?thesis using a by blast
  qed
  have p: "parseWebhookConfigFile lib (config_path lib config) = Inr ?ds"
    using validate_webhooks_valid [of ds 0] valid read parsed
    by (simp add: parseWebhookConfigFile_def)
  have reg: "?reg = fold (\<lambda>d r. Register r d) ?sorted Map.empty"
    by (rule LoadWebhookMiddlewares_registry [OF exists p])
  have m: "mset ?sorted = mset ?ds" using perm by simp
  then have set: "set ?sorted = set ?ds" by (rule mset_eq_setD)
  have names: "Name ` set ?sorted = Name ` set ds"
    unfolding set by (simp add: image_image)
  show "parseWebhookConfigFile lib (config_path lib config) = Inr ?ds" by (rule p)
  show "dom ?reg = Name ` set ds"
    unfolding reg fold_Register_dom names by simp
  show "\<forall>d\<in>set ds. \<exists>d'\<in>set ds. ?reg (Name d) = Some (set_defaults d') \<and> Name d' = Name d"
  proof
    fix d assume "d \<in> set ds"
    then have "Name d \<in> Name ` set ?sorted" unfolding names by simp
    then obtain x where x: "x \<in> set ?sorted" "?reg (Name d) = Some x" "Name x = Name d"
      unfolding reg using fold_Register_in [of "Name d" ?sorted Map.empty] by blast
    from x(1) obtain d' where "d' \<in> set ds" "x = set_defaults d'"
      unfolding set by auto
    with x show "\<exists>d'\<in>set ds. ?reg (Name d) = Some (set_defaults d') \<and> Name d' = Name d"
      by auto
  qed
  show "\<forall>d\<in>set ds. ?reg (Name d) = Some (set_defaults d)" if dist: "distinct (map Name ds)"
  proof
    fix d assume d: "d \<in> set ds"
    have "mset (map Name ?sorted) = mset (map Name ?ds)"
      using m by (metis mset_map)
    moreover have "distinct (map Name ?ds)" using dist by (simp add: o_def)
    ultimately have ds: "distinct (map Name ?sorted)"
      by (metis mset_eq_imp_distinct_iff)
    have "set_defaults d \<in> set ?sorted" unfolding set using d by simp
    from fold_Register_distinct [OF ds this, of Map.empty]
    show "?reg (Name d) = Some (set_defaults d)" unfolding reg by simp
  qed
qed


lemma file_stdlib_simps:
  "config_path (file_stdlib ds) \<lparr>WebhookConfigFile = []\<rparr> = ''/etc/config/middlewares.json''"
  "\<not> os_Stat_IsNotExist (file_stdlib ds) p"
  "os_ReadFile (file_stdlib ds) p = Inr ''{...}''"
  "json_Unmarshal_WebhooksFile (file_stdlib ds) s = Inr ds"
  "sort_Slice (file_stdlib ds) = go_sort_Slice"
  by (simp_all add: file_stdlib_def config_path_def defaultWebhookConfigPath_def)

theorem load_fail_fast_or_register_all_witness:
  "LoadWebhookMiddlewares (file_stdlib bad_file) \<lparr>WebhookConfigFile = []\<rparr> =
      \<lparr>middlewares = [], registry = Map.empty,
       load_log = [Error_failed_to_parse ''/etc/config/middlewares.json'' (MissingURL 1)]\<rparr>
   \<and> dom (registry (LoadWebhookMiddlewares (file_stdlib good_file) \<lparr>WebhookConfigFile = []\<rparr>))
       = {''hasty'', ''pager''}
   \<and> registry (LoadWebhookMiddlewares (file_stdlib good_file) \<lparr>WebhookConfigFile = []\<rparr>) ''hasty''
       = Some hasty_definition
   \<and> map name (middlewares
         (LoadWebhookMiddlewares (file_stdlib good_file) \<lparr>WebhookConfigFile = []\<rparr>))
       = [''pager'']"
proof -
  let ?cfg = "\<lparr>WebhookConfigFile = []\<rparr>"
  have bad: "\<exists>d\<in>set bad_file. entry_invalid d"
    by (simp add: bad_file_def entry_invalid_def hook_def)
  have good: "\<forall>d\<in>set good_file. \<not> entry_invalid d"
    by (simp add: good_file_def entry_invalid_def hook_def hasty_definition_def
        pager_definition_def WebhookTypeError_def WebhookTypeInfo_def WebhookTypeAll_def)
  have defaults: "map set_defaults good_file = good_file"
    by (simp add: good_file_def set_defaults_def hook_def hasty_definition_def
        pager_definition_def)
  have sorted: "go_sort_Slice priority_less good_file = [pager_definition, hasty_definition]"
    by code_simp
  have perm: "mset (sort_Slice (file_stdlib good_file) priority_less (map set_defaults good_file))
      = mset (map set_defaults good_file)"
    by (simp add: file_stdlib_simps defaults sorted) (simp add: good_file_def)
  have names: "distinct (map Name good_file)"
    by (simp add: good_file_def hook_def hasty_definition_def pager_definition_def)
  have first: "LoadWebhookMiddlewares (file_stdlib bad_file) ?cfg =
      \<lparr>middlewares = [], registry = Map.empty,
       load_log = [Error_failed_to_parse ''/etc/config/middlewares.json'' (MissingURL 1)]\<rparr>"
  proof -
    from load_fail_fast_or_register_all [of "file_stdlib bad_file" ?cfg "''{...}''" bad_file] bad
    obtain k where k: "k < length bad_file" "entry_invalid (bad_file ! k)"
      "\<forall>j<k. \<not> entry_invalid (bad_file ! j)"
      "LoadWebhookMiddlewares (file_stdlib bad_file) ?cfg =
         \<lparr>middlewares = [], registry = Map.empty,
          load_log = [Error_failed_to_parse (config_path (file_stdlib bad_file) ?cfg)
                        (entry_error k (bad_file ! k))]\<rparr>"
      by (auto simp: file_stdlib_simps)
    have "\<not> entry_invalid (bad_file ! 0)"
      by (simp add: bad_file_def entry_invalid_def pager_definition_def WebhookTypeError_def)
    with k(1,2) have "k = 1" by (cases k) (auto simp: bad_file_def)
    with k(4) show ?thesis
      by (simp add: file_stdlib_simps entry_error_def bad_file_def hook_def)
  qed
  have second: "dom (registry (LoadWebhookMiddlewares (file_stdlib good_file) ?cfg))
       = {''hasty'', ''pager''}
     \<and> registry (LoadWebhookMiddlewares (file_stdlib good_file) ?cfg) ''hasty''
       = Some hasty_definition"
    using load_fail_fast_or_register_all [of "file_stdlib good_file" ?cfg "''{...}''" good_file]
      good perm names
    by (simp add: file_stdlib_simps)
       (simp add: good_file_def hook_def hasty_definition_def pager_definition_def
          set_defaults_def)
  have third: "map name (middlewares (LoadWebhookMiddlewares (file_stdlib good_file) ?cfg))
       = [''pager'']"
    by code_simp
  from first second third show ?thesis by blast
qed

subsection \<open>Loader: order of the definitions\<close>











text \<open>
  Two runs of the transcription beyond the insertion sort: \<open>breakPatterns_func\<close> on a
  slice of eight elements (it swaps the indices 3, 4 and 5 with 0, 4 and 0), and the
  sort of fourteen definitions, one of priority 1 followed by thirteen of priority 0,
  where \<open>breakPatterns_func\<close> runs on the thirteen definitions left of the pivot.
\<close>

lemma breakPatterns_func_example:
  "breakPatterns_func [0, 1, 2, 3, 4, 5, 6, 7 :: int] 0 8 = [5, 1, 2, 0, 4, 3, 6, 7]"
  by code_simp

lemma go_sort_Slice_fourteen:
  "map Name (go_sort_Slice priority_less fourteen_hooks) =
     [''w6'', ''w12'', ''w2'', ''w3'', ''w4'', ''w5'', ''w8'', ''w13'', ''w1'', ''w9'', ''w10'',
      ''w11'', ''w7'', ''w0'']"
  by code_simp




end
